theory Spec2Isabelle
  imports Main "HOL-Library.Word"
begin

unbundle bit_operations_syntax

section \<open>The password codec of pdftk (passwords.cc)\<close>

text \<open>
  The function \<open>utf8_password_to_pdfdoc\<close> of \<open>passwords.cc\<close> decodes a UTF-8 password
  and maps every code point to one byte of PDFDocEncoding. The input \<open>ss\<close> is a list of
  bytes and \<open>ss_size\<close> the length the caller passes with it; the output buffer \<open>bb\<close> is
  \<open>None\<close> for the null pointer and \<open>Some buf\<close> for a buffer of \<open>length buf\<close> bytes.
  The loop reads \<open>ss\<close> only at indices below \<open>ss_size\<close>; a call of the source is
  defined when \<open>ss\<close> has at least \<open>ss_size\<close> bytes.
  The C integers \<open>ii\<close>, \<open>ss_size\<close> and \<open>ret_val\<close> are modelled by \<open>int\<close>: \<open>ii\<close> and
  \<open>ret_val\<close> never exceed \<open>ss_size\<close>, which is an \<open>int\<close> of the source, and \<open>ii + 1\<close>,
  \<open>ii + 2\<close> are only computed below \<open>ss_size\<close>, so no operation overflows. The decoded
  \<open>unsigned long data\<close> is below \<open>2 ^ 16\<close> and is modelled by \<open>nat\<close>.
\<close>

type_synonym byte = "8 word"

subsection \<open>The table for U+0100 .. U+01FF\<close>

text \<open>
  \<open>unicode_latin_extended_windows_map\<close>, lines 56 to 320 of the source, eight entries a
  row, the first row starting at U+0100. Character literals are written as their ASCII
  codes (\<open>'.'\<close> is \<open>0x2E\<close>, \<open>'A'\<close> is \<open>0x41\<close>) and octal literals in hexadecimal
  (\<open>0226\<close> is \<open>0x96\<close>).
\<close>

definition unicode_latin_extended_windows_map :: "nat list" where
  "unicode_latin_extended_windows_map = [
    0x41, 0x61, 0xC3, 0xC4, 0xA5, 0xB9, 0xC6, 0xE6,  \<comment> \<open>U+0100\<close>
    0x2E, 0x2E, 0x2E, 0x2E, 0xC8, 0xE8, 0xCF, 0xEF,  \<comment> \<open>U+0108\<close>
    0xD0, 0xF0, 0x45, 0x65, 0x2E, 0x2E, 0x45, 0x65,  \<comment> \<open>U+0110\<close>
    0xCA, 0xEA, 0xCC, 0xEC, 0x2E, 0x2E, 0x47, 0x67,  \<comment> \<open>U+0118\<close>
    0x2E, 0x2E, 0x47, 0x67, 0x2E, 0x2E, 0x2E, 0x2E,  \<comment> \<open>U+0120\<close>
    0x2E, 0x2E, 0x49, 0x69, 0x2E, 0x2E, 0x49, 0x69,  \<comment> \<open>U+0128\<close>
    0x49, 0x69, 0x2E, 0x2E, 0x2E, 0x2E, 0x4B, 0x6B,  \<comment> \<open>U+0130\<close>
    0x2E, 0xC5, 0xE5, 0x4C, 0x6C, 0xBC, 0xBE, 0x2E,  \<comment> \<open>U+0138\<close>
    0x2E, 0xA3, 0xB3, 0xD1, 0xF1, 0x4E, 0x6E, 0xD2,  \<comment> \<open>U+0140\<close>
    0xF2, 0x2E, 0x2E, 0x2E, 0x4F, 0x6F, 0x2E, 0x2E,  \<comment> \<open>U+0148\<close>
    0xD5, 0xF5, 0x96, 0x9C, 0xC0, 0xE0, 0x52, 0x72,  \<comment> \<open>U+0150\<close>
    0xD8, 0xF8, 0x8C, 0x9C, 0x2E, 0x2E, 0xAA, 0xBA,  \<comment> \<open>U+0158\<close>
    0x8A, 0x9A, 0xDE, 0xFE, 0x8D, 0x9D, 0x54, 0x74,  \<comment> \<open>U+0160\<close>
    0x2E, 0x2E, 0x55, 0x75, 0x2E, 0x2E, 0xD9, 0xF9,  \<comment> \<open>U+0168\<close>
    0xDB, 0xFB, 0x55, 0x75, 0x2E, 0x2E, 0x2E, 0x2E,  \<comment> \<open>U+0170\<close>
    0x98, 0x8F, 0x9F, 0xAF, 0xBF, 0x99, 0x9E, 0x2E,  \<comment> \<open>U+0178\<close>
    0x62, 0x2E, 0x2E, 0x2E, 0x2E, 0x2E, 0x2E, 0x2E,  \<comment> \<open>U+0180\<close>
    0x2E, 0xD0, 0x2E, 0x2E, 0x2E, 0x2E, 0x2E, 0x2E,  \<comment> \<open>U+0188\<close>
    0x2E, 0x83, 0x83, 0x2E, 0x2E, 0x2E, 0x2E, 0x49,  \<comment> \<open>U+0190\<close>
    0x2E, 0x2E, 0x6C, 0x2E, 0x2E, 0x2E, 0x2E, 0x4F,  \<comment> \<open>U+0198\<close>
    0x4F, 0x6F, 0x2E, 0x2E, 0x2E, 0x2E, 0x2E, 0x2E,  \<comment> \<open>U+01A0\<close>
    0x2E, 0x2E, 0x2E, 0x74, 0x2E, 0x2E, 0x54, 0x55,  \<comment> \<open>U+01A8\<close>
    0x75, 0x2E, 0x2E, 0x2E, 0x2E, 0x2E, 0x2E, 0x2E,  \<comment> \<open>U+01B0\<close>
    0x2E, 0x2E, 0x2E, 0x2E, 0x2E, 0x2E, 0x2E, 0x2E,  \<comment> \<open>U+01B8\<close>
    0x7C, 0x2E, 0x2E, 0x21, 0x2E, 0x2E, 0x2E, 0x2E,  \<comment> \<open>U+01C0\<close>
    0x2E, 0x2E, 0x2E, 0x2E, 0x2E, 0x2E, 0x2E, 0x2E,  \<comment> \<open>U+01C8\<close>
    0x2E, 0x2E, 0x2E, 0x2E, 0x2E, 0x2E, 0x2E, 0x2E,  \<comment> \<open>U+01D0\<close>
    0x2E, 0x2E, 0x2E, 0x2E, 0x2E, 0x2E, 0x41, 0x61,  \<comment> \<open>U+01D8\<close>
    0x2E, 0x2E, 0x2E, 0x2E, 0x47, 0x67, 0x2E, 0x2E,  \<comment> \<open>U+01E0\<close>
    0x2E, 0x2E, 0x2E, 0x2E, 0x4F, 0x6F, 0x2E, 0x2E,  \<comment> \<open>U+01E8\<close>
    0x2E, 0x2E, 0x2E, 0x2E, 0x2E, 0x2E, 0x2E, 0x2E,  \<comment> \<open>U+01F0\<close>
    0x2E, 0x2E, 0x2E, 0x2E, 0x2E, 0x2E, 0x2E, 0x2E]  \<comment> \<open>U+01F8\<close>"

subsection \<open>Decoding one UTF-8 sequence\<close>

text \<open>
  Lines 347 to 374: the byte at \<open>ii\<close> selects a one-, two- or three-byte sequence; the
  result is the decoded value and the next index, or \<open>None\<close> for the branch
  ``something else: out of range''. The masks give the same result for a signed and an
  unsigned \<open>char\<close>, and \<open>data = ss[ii]\<close> is only reached with the high bit clear.
\<close>

definition decode_utf8 :: "byte list \<Rightarrow> int \<Rightarrow> int \<Rightarrow> (nat \<times> int) option" where
  "decode_utf8 ss ss_size ii =
    (if (ss ! nat ii) AND 0x80 = 0
     then Some (unat (ss ! nat ii), ii + 1)
     else if (ss ! nat ii) AND 0xE0 = 0xC0 \<and>
             ii + 1 < ss_size \<and> (ss ! nat (ii + 1)) AND 0xC0 = 0x80
     then Some (push_bit 6 (unat ((ss ! nat ii) AND 0x1F))
                  + unat ((ss ! nat (ii + 1)) AND 0x3F), ii + 2)
     else if (ss ! nat ii) AND 0xF0 = 0xE0 \<and>
             ii + 1 < ss_size \<and> (ss ! nat (ii + 1)) AND 0xC0 = 0x80 \<and>
             ii + 2 < ss_size \<and> (ss ! nat (ii + 2)) AND 0xC0 = 0x80
     then Some (push_bit 6 (push_bit 6 (unat ((ss ! nat ii) AND 0x0F))
                  + unat ((ss ! nat (ii + 1)) AND 0x3F))
                  + unat ((ss ! nat (ii + 2)) AND 0x3F), ii + 3)
     else None)"

subsection \<open>Classifying one code point\<close>

text \<open>
  The two \<open>switch\<close> statements assign a constant to \<open>data\<close> for each of their \<open>case\<close>
  labels. They are association lists from the label to the constant, in the order of
  the source; the labels of each are distinct. The octal constants of the source are
  written in hexadecimal, with the source's literal in the comment.
\<close>

definition pdfdoc_switch :: "(nat \<times> nat) list" where
  \<comment> \<open>lines 382 to 405\<close>
  "pdfdoc_switch =
    [(0x0152, 0x96),  \<comment> \<open>OE ligature, 0226\<close>
     (0x0153, 0x9C),  \<comment> \<open>oe ligature, 0234\<close>
     (0x0160, 0x97),  \<comment> \<open>Scaron, 0227\<close>
     (0x017E, 0x9E),  \<comment> \<open>zcaron, 0236\<close>
     (0x0178, 0x98),  \<comment> \<open>Ydieresis, 0230\<close>
     (0x017D, 0x99),  \<comment> \<open>Zcaron, 0231\<close>
     (0x0192, 0x86),  \<comment> \<open>florin, 0206\<close>
     (0x0161, 0x9D)]  \<comment> \<open>scaron, 0235\<close>"

definition decrypt_switch :: "(nat \<times> nat) list" where
  \<comment> \<open>lines 422 to 478\<close>
  "decrypt_switch =
    [(0x20AC, 0xA0),  \<comment> \<open>Euro, 0240\<close>
     (0x2022, 0x80),  \<comment> \<open>bullet, 0200\<close>
     (0x2020, 0x81),  \<comment> \<open>dagger, 0201\<close>
     (0x2021, 0x82),  \<comment> \<open>daggerdbl, 0202\<close>
     (0x2026, 0x83),  \<comment> \<open>ellipsis, 0203\<close>
     (0x02C6, 0x1A),  \<comment> \<open>circumflex, 0032\<close>
     (0x2014, 0x84),  \<comment> \<open>emdash, 0204\<close>
     (0x2013, 0x85),  \<comment> \<open>endash, 0205\<close>
     (0x2039, 0x88),  \<comment> \<open>guilsinglleft, 0210\<close>
     (0x203A, 0x89),  \<comment> \<open>guilsinglright, 0211\<close>
     (0x2030, 0x8B),  \<comment> \<open>perthousand, 0213\<close>
     (0x201E, 0x8C),  \<comment> \<open>quotedblbase, 0214\<close>
     (0x201C, 0x8D),  \<comment> \<open>quotedblleft, 0215\<close>
     (0x201D, 0x8E),  \<comment> \<open>quotedblright, 0216\<close>
     (0x2018, 0x8F),  \<comment> \<open>quoteleft, 0217\<close>
     (0x2019, 0x90),  \<comment> \<open>quoteright, 0220\<close>
     (0x201A, 0x91),  \<comment> \<open>quotesinglebase, 0221\<close>
     (0x02DC, 0x1F),  \<comment> \<open>tilde, 0037\<close>
     (0x2122, 0x92)]  \<comment> \<open>trademark, 0222\<close>"

text \<open>
  Lines 376 to 487: the range test, the outer \<open>switch\<close>, and in its \<open>default\<close> branch
  the test of \<open>encrypt_b\<close>, the table and the inner \<open>switch\<close>. The result is the new
  \<open>data\<close> and the new \<open>ret_val\<close>, which is \<open>-1\<close> when the code point is refused. The
  \<open>break\<close> of line 409 leaves the \<open>switch\<close>, not the loop.
\<close>

definition classify :: "bool \<Rightarrow> nat \<Rightarrow> int \<Rightarrow> nat \<times> int" where
  "classify encrypt_b data ret_val =
    (if 0x20 \<le> data \<and> data < 0x7F \<or> 0xA0 \<le> data \<and> data \<le> 0xFF
     then (data, ret_val)
     else (case map_of pdfdoc_switch data of
             Some c \<Rightarrow> (c, ret_val)
           | None \<Rightarrow>
               if encrypt_b then (data, - 1)
               else if 0x100 \<le> data \<and> data \<le> 0x1FF
               then (unicode_latin_extended_windows_map ! (data - 0x100), ret_val)
               else (case map_of decrypt_switch data of
                       Some c \<Rightarrow> (c, ret_val)
                     | None \<Rightarrow> (data, - 1))))"

subsection \<open>The output buffer\<close>

text \<open>
  Lines 490 and 491: \<open>if( bb ) bb[ ret_val ]= data\<close>. Nothing is written through the null
  pointer. A write beyond the end of the buffer is undefined in C; the model reports it
  as an error. The stored \<open>jbyte\<close> holds the low eight bits of \<open>data\<close>.
\<close>

datatype error = Buffer_Overrun

definition store_byte :: "byte list option \<Rightarrow> int \<Rightarrow> nat \<Rightarrow> error + byte list option" where
  "store_byte bb ret_val data =
    (case bb of
       None \<Rightarrow> Inr None
     | Some buf \<Rightarrow>
         if 0 \<le> ret_val \<and> nat ret_val < length buf
         then Inr (Some (buf[nat ret_val := of_nat data]))
         else Inl Buffer_Overrun)"

subsection \<open>The loop\<close>

lemma decode_utf8_advances:
  "decode_utf8 ss ss_size ii = Some (data, ii') \<Longrightarrow> ii < ii' \<and> ii' \<le> ii + 3"
  by (auto simp: decode_utf8_def split: if_splits)

text \<open>
  Lines 341 to 494. The loop stops at \<open>ss_size\<close>, at a zero byte, or when \<open>ret_val\<close> is
  \<open>-1\<close>; a sequence that does not decode sets \<open>ret_val\<close> to \<open>-1\<close> and leaves the loop.
\<close>

function password_loop ::
  "byte list option \<Rightarrow> byte list \<Rightarrow> int \<Rightarrow> bool \<Rightarrow> int \<Rightarrow> int
     \<Rightarrow> error + (byte list option \<times> int)" where
  "password_loop bb ss ss_size encrypt_b ii ret_val =
    (if ii < ss_size \<and> ss ! nat ii \<noteq> 0 \<and> ret_val \<noteq> - 1
     then (case decode_utf8 ss ss_size ii of
             None \<Rightarrow> Inr (bb, - 1)
           | Some (data, ii') \<Rightarrow>
               (case classify encrypt_b data ret_val of
                  (data', ret_val') \<Rightarrow>
                    if ret_val' \<noteq> - 1
                    then (case store_byte bb ret_val' data' of
                            Inl e \<Rightarrow> Inl e
                          | Inr bb' \<Rightarrow>
                              password_loop bb' ss ss_size encrypt_b ii' (ret_val' + 1))
                    else password_loop bb ss ss_size encrypt_b ii' ret_val'))
     else Inr (bb, ret_val))"
  by pat_completeness auto
termination
  by (relation "measure (\<lambda>(bb, ss, ss_size, encrypt_b, ii, ret_val). nat (ss_size - ii))")
     (auto dest: decode_utf8_advances)

declare password_loop.simps [simp del]

definition utf8_password_to_pdfdoc ::
  "byte list option \<Rightarrow> byte list \<Rightarrow> int \<Rightarrow> bool \<Rightarrow> error + (byte list option \<times> int)" where
  "utf8_password_to_pdfdoc bb ss ss_size encrypt_b =
     password_loop bb ss ss_size encrypt_b 0 0"

subsection \<open>The code points the loop meets\<close>

text \<open>
  \<open>decoded_points ss ss_size ii\<close> runs the decoder of the loop alone, from index \<open>ii\<close>:
  it gives the code points decoded up to the place where the loop condition or the
  decoder stops it, and whether that place is the end of the input or a zero byte
  (\<open>True\<close>) or a sequence that \<open>decode_utf8\<close> refuses (\<open>False\<close>).
\<close>

function decoded_points :: "byte list \<Rightarrow> int \<Rightarrow> int \<Rightarrow> nat list \<times> bool" where
  "decoded_points ss ss_size ii =
    (if ii < ss_size \<and> ss ! nat ii \<noteq> 0
     then (case decode_utf8 ss ss_size ii of
             None \<Rightarrow> ([], False)
           | Some (data, ii') \<Rightarrow>
               (case decoded_points ss ss_size ii' of (cps, ok) \<Rightarrow> (data # cps, ok)))
     else ([], True))"
  by pat_completeness auto
termination
  by (relation "measure (\<lambda>(ss, ss_size, ii). nat (ss_size - ii))")
     (auto dest: decode_utf8_advances)

declare decoded_points.simps [simp del]

text \<open>
  Whether \<open>classify\<close> keeps \<open>ret_val\<close> for a code point, and the byte that is stored
  for it.
\<close>

definition accepted :: "bool \<Rightarrow> nat \<Rightarrow> bool" where
  "accepted encrypt_b data = (snd (classify encrypt_b data 0) \<noteq> - 1)"

definition emitted :: "bool \<Rightarrow> nat \<Rightarrow> byte" where
  "emitted encrypt_b data = of_nat (fst (classify encrypt_b data 0))"

definition code_points :: "byte list \<Rightarrow> int \<Rightarrow> nat list" where
  "code_points ss ss_size = fst (decoded_points ss ss_size 0)"

definition decodable :: "byte list \<Rightarrow> int \<Rightarrow> bool" where
  "decodable ss ss_size = snd (decoded_points ss ss_size 0)"

lemmas codec_eval =
  utf8_password_to_pdfdoc_def password_loop.simps decoded_points.simps decode_utf8_def
  classify_def store_byte_def pdfdoc_switch_def decrypt_switch_def accepted_def
  emitted_def code_points_def decodable_def

section \<open>Properties of the model\<close>

subsection \<open>One step of the decoder and of the loop\<close>

text \<open>
  The decoder stays within \<open>ss_size\<close>; the equations of \<open>decoded_points\<close> and of the loop, one for each way an iteration can go; and \<open>classify\<close> in terms of \<open>accepted\<close>.
\<close>

lemma decode_utf8_within:
  "ii < n \<Longrightarrow> decode_utf8 ss n ii = Some (data, ii') \<Longrightarrow> ii' \<le> n"
  by (auto simp: decode_utf8_def split: if_splits)

lemma decoded_points_stop:
  "\<not> (ii < n \<and> ss ! nat ii \<noteq> 0) \<Longrightarrow> decoded_points ss n ii = ([], True)"
  by (subst decoded_points.simps) auto

lemma decoded_points_bad:
  "ii < n \<Longrightarrow> ss ! nat ii \<noteq> 0 \<Longrightarrow> decode_utf8 ss n ii = None \<Longrightarrow>
   decoded_points ss n ii = ([], False)"
  by (subst decoded_points.simps) auto

lemma decoded_points_step:
  "ii < n \<Longrightarrow> ss ! nat ii \<noteq> 0 \<Longrightarrow> decode_utf8 ss n ii = Some (data, ii') \<Longrightarrow>
   decoded_points ss n ii =
     (data # fst (decoded_points ss n ii'), snd (decoded_points ss n ii'))"
  by (subst decoded_points.simps) (auto simp: split_beta)

lemma decoded_points_length:
  "ii \<le> n \<Longrightarrow> int (length (fst (decoded_points ss n ii))) \<le> n - ii"
proof (induction ss n ii rule: decoded_points.induct)
  case (1 ss n ii)
  show ?case
  proof (cases "ii < n \<and> ss ! nat ii \<noteq> 0")
    case False
    with "1.prems" show ?thesis by (simp add: decoded_points_stop)
  next
    case True
    show ?thesis
    proof (cases "decode_utf8 ss n ii")
      case None
      with True "1.prems" show ?thesis by (simp add: decoded_points_bad)
    next
      case (Some p)
      obtain data ii' where p: "p = (data, ii')" by (cases p)
      note dec = Some [unfolded p]
      have "ii' \<le> n" using True dec by (auto dest: decode_utf8_within)
      from "1.IH" [OF True dec refl this] decode_utf8_advances [OF dec] True dec
      show ?thesis by (simp add: decoded_points_step)
    qed
  qed
qed

lemma classify_eq:
  "classify e data r = (fst (classify e data 0), if accepted e data then r else - 1)"
  unfolding accepted_def classify_def
  by (auto split: option.splits)

lemma loop_stop: "password_loop bb ss n e ii (- 1) = Inr (bb, - 1)"
  by (subst password_loop.simps) simp

lemma loop_bad_sequence:
  "ii < n \<Longrightarrow> ss ! nat ii \<noteq> 0 \<Longrightarrow> r \<noteq> - 1 \<Longrightarrow> decode_utf8 ss n ii = None \<Longrightarrow>
   password_loop bb ss n e ii r = Inr (bb, - 1)"
  by (subst password_loop.simps) simp

subsection \<open>The loop in terms of the decoded code points\<close>

text \<open>
  The dry run counts the code points when all of them decode and are accepted; a run with a buffer stores the bytes of the accepted code points in order, from index \<open>ret_val\<close> on, and returns the integer of the dry run.
\<close>

lemma loop_dry:
  "0 \<le> r \<Longrightarrow>
   password_loop None ss n e ii r =
     Inr (None, if snd (decoded_points ss n ii) \<and> list_all (accepted e) (fst (decoded_points ss n ii))
                then r + int (length (fst (decoded_points ss n ii))) else - 1)"
proof (induction ss n ii arbitrary: r rule: decoded_points.induct)
  case (1 ss n ii)
  show ?case
  proof (cases "ii < n \<and> ss ! nat ii \<noteq> 0")
    case False
    with "1.prems" show ?thesis
      by (subst password_loop.simps, subst (1 2 3) decoded_points.simps) auto
  next
    case True
    note inb = True
    have rne: "r \<noteq> - 1" using "1.prems" by simp
    show ?thesis
    proof (cases "decode_utf8 ss n ii")
      case None
      with inb rne show ?thesis
        by (subst password_loop.simps, subst (1 2 3) decoded_points.simps) simp
    next
      case (Some p)
      obtain data ii' where p: "p = (data, ii')" by (cases p)
      note dec = Some [unfolded p]
      show ?thesis
      proof (cases "accepted e data")
        case True
        have "password_loop None ss n e ii r = password_loop None ss n e ii' (r + 1)"
          using inb rne dec True
          by (subst password_loop.simps) (simp add: classify_eq [of e data r] store_byte_def)
        also have "\<dots> = Inr (None, if snd (decoded_points ss n ii') \<and> list_all (accepted e) (fst (decoded_points ss n ii'))
                then (r + 1) + int (length (fst (decoded_points ss n ii'))) else - 1)"
          using "1.IH" [OF inb dec, where r = "r + 1"] "1.prems" by simp
        finally show ?thesis
          using inb dec True
          by (subst (1 2 3) decoded_points.simps) (simp add: split_beta)
      next
        case False
        have "password_loop None ss n e ii r = password_loop None ss n e ii' (- 1)"
          using inb rne dec False
          by (subst password_loop.simps) (simp add: classify_eq [of e data r])
        also have "\<dots> = Inr (None, - 1)"
          by (subst password_loop.simps) simp
        finally show ?thesis
          using inb dec False
          by (subst (1 2 3) decoded_points.simps) (simp add: split_beta)
      qed
    qed
  qed
qed

lemma loop_same_integer:
  "password_loop bb ss n e ii r = Inr (bb', r') \<Longrightarrow>
   password_loop None ss n e ii r = Inr (None, r')"
proof (induction bb ss n e ii r rule: password_loop.induct)
  case (1 bb ss n e ii r)
  show ?case
  proof (cases "ii < n \<and> ss ! nat ii \<noteq> 0 \<and> r \<noteq> - 1")
    case False
    with "1.prems" show ?thesis
      by (subst password_loop.simps, subst (asm) password_loop.simps) auto
  next
    case True
    note inb = True
    show ?thesis
    proof (cases "decode_utf8 ss n ii")
      case None
      with inb "1.prems" show ?thesis
        by (subst password_loop.simps, subst (asm) password_loop.simps) auto
    next
      case (Some p)
      obtain data ii' where p: "p = (data, ii')" by (cases p)
      note dec = Some [unfolded p]
      show ?thesis
      proof (cases "accepted e data")
        case False
        with inb dec "1.prems" have "r' = - 1"
          by (subst (asm) password_loop.simps)
             (simp add: classify_eq [of e data r] loop_stop)
        with inb dec False show ?thesis
          by (subst password_loop.simps)
             (simp add: classify_eq [of e data r] loop_stop)
      next
        case True
        let ?d = "fst (classify e data 0)"
        from inb dec True "1.prems" obtain bb1 where
          st: "store_byte bb r ?d = Inr bb1" and
          run: "password_loop bb1 ss n e ii' (r + 1) = Inr (bb', r')"
          by (subst (asm) password_loop.simps)
             (auto simp: classify_eq [of e data r] split: sum.splits)
        have cl: "classify e data r = (?d, r)" using True by (simp add: classify_eq [of e data r])
        have "password_loop None ss n e ii' (r + 1) = Inr (None, r')"
          using inb by (intro "1.IH"(1) [OF inb dec refl cl [symmetric] _ st run]) simp
        with inb dec True show ?thesis
          by (subst password_loop.simps) (simp add: classify_eq [of e data r] store_byte_def)
      qed
    qed
  qed
qed

lemma take_Suc_update:
  "k < length buf \<Longrightarrow> take (Suc k) (buf[k := d]) = take k buf @ [d]"
  by (simp add: take_Suc_conv_app_nth)

lemma loop_real:
  "0 \<le> r \<Longrightarrow>
   nat r + length (takeWhile (accepted e) (fst (decoded_points ss n ii))) \<le> length buf \<Longrightarrow>
   password_loop (Some buf) ss n e ii r =
     Inr (Some (take (nat r) buf
                @ map (emitted e) (takeWhile (accepted e) (fst (decoded_points ss n ii)))
                @ drop (nat r + length (takeWhile (accepted e) (fst (decoded_points ss n ii)))) buf),
          if snd (decoded_points ss n ii) \<and> list_all (accepted e) (fst (decoded_points ss n ii))
          then r + int (length (fst (decoded_points ss n ii))) else - 1)"
proof (induction ss n ii arbitrary: r buf rule: decoded_points.induct)
  case (1 ss n ii)
  show ?case
  proof (cases "ii < n \<and> ss ! nat ii \<noteq> 0")
    case False
    then have dp: "decoded_points ss n ii = ([], True)"
      by (rule decoded_points_stop)
    from False show ?thesis
      unfolding dp by (subst password_loop.simps) auto
  next
    case True
    note inb = True
    have rne: "r \<noteq> - 1" using "1.prems" by simp
    show ?thesis
    proof (cases "decode_utf8 ss n ii")
      case None
      with inb have dp: "decoded_points ss n ii = ([], False)"
        by (simp add: decoded_points_bad)
      from inb rne None show ?thesis
        unfolding dp by (subst password_loop.simps) simp
    next
      case (Some p)
      obtain data ii' where p: "p = (data, ii')" by (cases p)
      note dec = Some [unfolded p]
      obtain cps ok where rest: "decoded_points ss n ii' = (cps, ok)"
        by (cases "decoded_points ss n ii'")
      from inb dec rest have dp: "decoded_points ss n ii = (data # cps, ok)"
        by (simp add: decoded_points_step)
      show ?thesis
      proof (cases "accepted e data")
        case False
        with inb rne dec show ?thesis
          unfolding dp
          by (subst password_loop.simps) (simp add: classify_eq [of e data r] loop_stop)
      next
        case True
        let ?tw = "takeWhile (accepted e) cps"
        let ?b1 = "buf[nat r := emitted e data]"
        from "1.prems" True have fits: "nat r < length buf" and
          fits': "nat (r + 1) + length ?tw \<le> length ?b1"
          unfolding dp by simp_all
        have r1: "nat (r + 1) = Suc (nat r)" using "1.prems"(1) by simp
        have "password_loop (Some buf) ss n e ii r = password_loop (Some ?b1) ss n e ii' (r + 1)"
          using inb rne dec True fits "1.prems"(1)
          by (subst password_loop.simps)
             (simp add: classify_eq [of e data r] store_byte_def emitted_def)
        also have "\<dots> = Inr (Some (take (nat (r + 1)) ?b1 @ map (emitted e) ?tw
                                   @ drop (nat (r + 1) + length ?tw) ?b1),
                   if ok \<and> list_all (accepted e) cps then (r + 1) + int (length cps) else - 1)"
          using "1.IH" [OF inb dec refl, where r = "r + 1" and buf = ?b1] "1.prems"(1) fits'
          by (simp add: rest)
        finally show ?thesis
          using True fits unfolding dp r1
          by (simp add: take_Suc_update)
      qed
    qed
  qed
qed

lemma loop_mode_mono:
  "password_loop bb ss n e ii r = Inr (bb', r') \<Longrightarrow> r' \<noteq> - 1 \<Longrightarrow>
   (\<And>cp k. accepted e cp \<Longrightarrow> classify e' cp k = classify e cp k) \<Longrightarrow>
   password_loop bb ss n e' ii r = Inr (bb', r')"
proof (induction bb ss n e ii r rule: password_loop.induct)
  case (1 bb ss n e ii r)
  show ?case
  proof (cases "ii < n \<and> ss ! nat ii \<noteq> 0 \<and> r \<noteq> - 1")
    case False
    with "1.prems"(1) show ?thesis
      by (subst password_loop.simps, subst (asm) password_loop.simps) auto
  next
    case True
    note inb = True
    show ?thesis
    proof (cases "decode_utf8 ss n ii")
      case None
      with inb "1.prems"(1,2) show ?thesis
        by (subst (asm) password_loop.simps) auto
    next
      case (Some p)
      obtain data ii' where p: "p = (data, ii')" by (cases p)
      note dec = Some [unfolded p]
      show ?thesis
      proof (cases "accepted e data")
        case False
        with inb dec "1.prems"(1,2) show ?thesis
          by (subst (asm) password_loop.simps)
             (simp add: classify_eq [of e data r] loop_stop)
      next
        case True
        let ?d = "fst (classify e data 0)"
        from inb dec True "1.prems"(1) obtain bb1 where
          st: "store_byte bb r ?d = Inr bb1" and
          run: "password_loop bb1 ss n e ii' (r + 1) = Inr (bb', r')"
          by (subst (asm) password_loop.simps)
             (auto simp: classify_eq [of e data r] split: sum.splits)
        have cl: "classify e data r = (?d, r)" using True by (simp add: classify_eq [of e data r])
        have cl': "classify e' data r = (?d, r)"
          using "1.prems"(3) [OF True, of r] cl by simp
        have rne: "r \<noteq> - 1" using inb by simp
        have "password_loop bb1 ss n e' ii' (r + 1) = Inr (bb', r')"
          by (rule "1.IH"(1) [OF inb dec refl cl [symmetric] rne st run "1.prems"(2,3)])
        with inb dec cl' st show ?thesis
          by (subst password_loop.simps) simp
      qed
    qed
  qed
qed

subsection \<open>Input with a zero byte\<close>

lemma decode_utf8_nul_prefix:
  assumes "0 \<le> ii" "ii < int (length pre)"
  shows "decode_utf8 (pre @ 0 # post) (int (length (pre @ 0 # post))) ii =
         decode_utf8 pre (int (length pre)) ii"
proof -
  have k0: "nat ii < length pre" using assms by linarith
  have a0: "(pre @ 0 # post) ! nat ii = pre ! nat ii"
    using k0 by (simp add: nth_append)
  have a1: "ii + 1 < int (length (pre @ 0 # post)) \<and> (pre @ 0 # post) ! nat (ii + 1) AND 0xC0 = 0x80
            \<longleftrightarrow> ii + 1 < int (length pre) \<and> pre ! nat (ii + 1) AND 0xC0 = 0x80"
  proof (cases "ii + 1 < int (length pre)")
    case True
    then have "nat (ii + 1) < length pre" using assms by linarith
    with True show ?thesis by (simp add: nth_append)
  next
    case False
    with assms have "nat (ii + 1) = length pre" by linarith
    with False show ?thesis by simp
  qed
  have a2: "ii + 1 < int (length pre) \<Longrightarrow>
            (ii + 2 < int (length (pre @ 0 # post)) \<and> (pre @ 0 # post) ! nat (ii + 2) AND 0xC0 = 0x80
            \<longleftrightarrow> ii + 2 < int (length pre) \<and> pre ! nat (ii + 2) AND 0xC0 = 0x80)"
  proof (cases "ii + 2 < int (length pre)")
    case True
    then have "nat (ii + 2) < length pre" using assms by linarith
    with True show ?thesis by (simp add: nth_append)
  next
    case False
    assume "ii + 1 < int (length pre)"
    with False assms have "nat (ii + 2) = length pre" by linarith
    with False show ?thesis by simp
  qed
  have n1: "(pre @ 0 # post) ! nat (ii + 1) = pre ! nat (ii + 1)" if "ii + 1 < int (length pre)"
  proof -
    from that assms have "nat (ii + 1) < length pre" by linarith
    then show ?thesis by (simp add: nth_append)
  qed
  have n2: "(pre @ 0 # post) ! nat (ii + 2) = pre ! nat (ii + 2)" if "ii + 2 < int (length pre)"
  proof -
    from that assms have "nat (ii + 2) < length pre" by linarith
    then show ?thesis by (simp add: nth_append)
  qed
  show ?thesis
    unfolding decode_utf8_def a0
    using a1 a2 n1 n2 by (auto simp del: length_append)
qed

lemma loop_nul_prefix:
  assumes "0 \<notin> set pre" "n = int (length pre)" "0 \<le> ii" "ii \<le> n"
  shows "password_loop bb (pre @ 0 # post) (int (length (pre @ 0 # post))) e ii r =
         password_loop bb pre n e ii r"
  using assms
proof (induction bb pre n e ii r rule: password_loop.induct)
  case (1 bb ss n e ii r)
  let ?full = "ss @ 0 # post"
  let ?m = "int (length ?full)"
  show ?case
  proof (cases "ii < n \<and> r \<noteq> - 1")
    case False
    then consider "r = - 1" | "r \<noteq> - 1" "ii = n" using "1.prems" by force
    then show ?thesis
    proof cases
      case 1
      then show ?thesis by (simp add: loop_stop)
    next
      case 2
      with "1.prems" have "nat ii = length ss" by linarith
      then have "?full ! nat ii = 0" by simp
      with 2 show ?thesis
        by (subst (1 2) password_loop.simps) simp
    qed
  next
    case True
    with "1.prems" have lt: "ii < int (length ss)" by simp
    with "1.prems" have k: "nat ii < length ss" by linarith
    with "1.prems"(1) have nz: "ss ! nat ii \<noteq> 0" by (metis nth_mem)
    from k have same: "?full ! nat ii = ss ! nat ii" by (simp add: nth_append)
    have dec: "decode_utf8 ?full ?m ii = decode_utf8 ss n ii"
      using decode_utf8_nul_prefix [of ii ss post] "1.prems" lt by simp
    have inb: "ii < n \<and> ss ! nat ii \<noteq> 0 \<and> r \<noteq> - 1" using True nz by simp
    have inb': "ii < ?m \<and> ?full ! nat ii \<noteq> 0 \<and> r \<noteq> - 1" using True nz same lt by simp
    show ?thesis
    proof (cases "decode_utf8 ss n ii")
      case None
      with inb inb' dec show ?thesis
        by (subst (1 2) password_loop.simps) (simp del: length_append)
    next
      case (Some p)
      obtain data ii' where p: "p = (data, ii')" by (cases p)
      note d = Some [unfolded p]
      have adv: "0 \<le> ii'" "ii' \<le> n"
        using decode_utf8_advances [OF d] decode_utf8_within [OF _ d] True "1.prems" by auto
      show ?thesis
      proof (cases "accepted e data")
        case False
        with inb inb' dec d show ?thesis
          by (subst (1 2) password_loop.simps)
             (simp add: classify_eq [of e data r] loop_stop del: length_append)
      next
        case True
        let ?d = "fst (classify e data 0)"
        have cl: "classify e data r = (?d, r)" using True by (simp add: classify_eq [of e data r])
        show ?thesis
        proof (cases "store_byte bb r ?d")
          case (Inl err)
          with inb inb' dec d cl show ?thesis
            by (subst (1 2) password_loop.simps) (simp del: length_append)
        next
          case (Inr bb1)
          have rne: "r \<noteq> - 1" using inb by simp
          have "password_loop bb1 ?full ?m e ii' (r + 1) = password_loop bb1 ss n e ii' (r + 1)"
            by (rule "1.IH"(1) [OF inb d refl cl [symmetric] rne Inr "1.prems"(1,2) adv])
          with inb inb' dec d cl Inr show ?thesis
            by (subst (1 2) password_loop.simps) (simp del: length_append)
        qed
      qed
    qed
  qed
qed

lemma decoded_points_nul_prefix:
  assumes "0 \<notin> set pre" "n = int (length pre)" "0 \<le> ii" "ii \<le> n"
  shows "decoded_points (pre @ 0 # post) (int (length (pre @ 0 # post))) ii =
         decoded_points pre n ii"
  using assms
proof (induction pre n ii rule: decoded_points.induct)
  case (1 ss n ii)
  let ?full = "ss @ 0 # post"
  let ?m = "int (length ?full)"
  show ?case
  proof (cases "ii < n")
    case False
    with "1.prems" have "nat ii = length ss" by linarith
    then have "?full ! nat ii = 0" by simp
    then have "decoded_points ?full ?m ii = ([], True)" by (simp add: decoded_points_stop)
    moreover from False have "decoded_points ss n ii = ([], True)"
      by (simp add: decoded_points_stop)
    ultimately show ?thesis by simp
  next
    case True
    with "1.prems" have lt: "ii < int (length ss)" by simp
    with "1.prems" have k: "nat ii < length ss" by linarith
    with "1.prems"(1) have nz: "ss ! nat ii \<noteq> 0" by (metis nth_mem)
    from k have same: "?full ! nat ii = ss ! nat ii" by (simp add: nth_append)
    have dec: "decode_utf8 ?full ?m ii = decode_utf8 ss n ii"
      using decode_utf8_nul_prefix [of ii ss post] "1.prems" lt by simp
    have inb: "ii < n \<and> ss ! nat ii \<noteq> 0" using True nz by simp
    have lt': "ii < ?m" using lt by simp
    have nz': "?full ! nat ii \<noteq> 0" using nz same by simp
    show ?thesis
    proof (cases "decode_utf8 ss n ii")
      case None
      from decoded_points_bad [OF lt' nz' None [folded dec]]
           decoded_points_bad [OF True nz None]
      show ?thesis by simp
    next
      case (Some p)
      obtain data ii' where p: "p = (data, ii')" by (cases p)
      note d = Some [unfolded p]
      have adv: "0 \<le> ii'" "ii' \<le> n"
        using decode_utf8_advances [OF d] decode_utf8_within [OF _ d] True "1.prems" by auto
      have "decoded_points ?full ?m ii' = decoded_points ss n ii'"
        by (rule "1.IH" [OF inb d refl "1.prems"(1,2) adv])
      with decoded_points_step [OF lt' nz' d [folded dec]]
           decoded_points_step [OF True nz d]
      show ?thesis by simp
    qed
  qed
qed

subsection \<open>Bit patterns of the lead and continuation bytes\<close>

lemma and_mask_sub:
  fixes b :: byte
  assumes "b AND m = v"
  shows "b AND (m AND k) = v AND k"
  using assms by (simp add: and.assoc [symmetric])

lemma lead2_excl:
  fixes b :: byte
  assumes "b AND 0xE0 = 0xC0"
  shows "b AND 0x80 \<noteq> 0" "b AND 0xF0 \<noteq> 0xE0"
proof -
  from and_mask_sub [OF assms, where k = "0x80"] show "b AND 0x80 \<noteq> 0" by simp
  from and_mask_sub [OF assms, where k = "0x20"] have z: "b AND 0x20 = 0" by simp
  show "b AND 0xF0 \<noteq> 0xE0"
  proof
    assume "b AND 0xF0 = 0xE0"
    from and_mask_sub [OF this, where k = "0x20"] z show False by simp
  qed
qed

lemma lead3_excl:
  fixes b :: byte
  assumes "b AND 0xF0 = 0xE0"
  shows "b AND 0x80 \<noteq> 0" "b AND 0xE0 \<noteq> 0xC0"
proof -
  from and_mask_sub [OF assms, where k = "0x80"] show "b AND 0x80 \<noteq> 0" by simp
  from and_mask_sub [OF assms, where k = "0xE0"] show "b AND 0xE0 \<noteq> 0xC0" by simp
qed

lemma lead4_excl:
  fixes b :: byte
  assumes "b AND 0xF0 = 0xF0"
  shows "b AND 0x80 \<noteq> 0" "b AND 0xE0 \<noteq> 0xC0" "b AND 0xF0 \<noteq> 0xE0"
proof -
  from and_mask_sub [OF assms, where k = "0x80"] show "b AND 0x80 \<noteq> 0" by simp
  from and_mask_sub [OF assms, where k = "0xE0"] show "b AND 0xE0 \<noteq> 0xC0" by simp
  from assms show "b AND 0xF0 \<noteq> 0xE0" by simp
qed

lemma cont_excl:
  fixes b :: byte
  assumes "b AND 0xC0 = 0x80"
  shows "b AND 0x80 \<noteq> 0" "b AND 0xE0 \<noteq> 0xC0" "b AND 0xF0 \<noteq> 0xE0"
proof -
  from and_mask_sub [OF assms, where k = "0x80"] show "b AND 0x80 \<noteq> 0" by simp
  from and_mask_sub [OF assms, where k = "0x40"] have z: "b AND 0x40 = 0" by simp
  show "b AND 0xE0 \<noteq> 0xC0"
  proof
    assume "b AND 0xE0 = 0xC0"
    from and_mask_sub [OF this, where k = "0x40"] z show False by simp
  qed
  show "b AND 0xF0 \<noteq> 0xE0"
  proof
    assume "b AND 0xF0 = 0xE0"
    from and_mask_sub [OF this, where k = "0x40"] z show False by simp
  qed
qed

lemma decode_utf8_refuses:
  fixes ss :: "byte list"
  assumes "(ss ! nat ii AND 0x80 \<noteq> 0 \<and> ss ! nat ii AND 0xE0 \<noteq> 0xC0 \<and> ss ! nat ii AND 0xF0 \<noteq> 0xE0)
     \<or> ss ! nat ii AND 0xF0 = 0xF0
     \<or> ss ! nat ii AND 0xC0 = 0x80
     \<or> (ss ! nat ii AND 0xE0 = 0xC0 \<and>
          \<not> (ii + 1 < ss_size \<and> ss ! nat (ii + 1) AND 0xC0 = 0x80))
     \<or> (ss ! nat ii AND 0xF0 = 0xE0 \<and>
          \<not> (ii + 1 < ss_size \<and> ss ! nat (ii + 1) AND 0xC0 = 0x80 \<and>
             ii + 2 < ss_size \<and> ss ! nat (ii + 2) AND 0xC0 = 0x80))"
  shows "decode_utf8 ss ss_size ii = None"
proof -
  let ?b = "ss ! nat ii"
  from assms consider
      (other) "?b AND 0x80 \<noteq> 0" "?b AND 0xE0 \<noteq> 0xC0" "?b AND 0xF0 \<noteq> 0xE0"
    | (four) "?b AND 0xF0 = 0xF0"
    | (cont) "?b AND 0xC0 = 0x80"
    | (two) "?b AND 0xE0 = 0xC0" "\<not> (ii + 1 < ss_size \<and> ss ! nat (ii + 1) AND 0xC0 = 0x80)"
    | (three) "?b AND 0xF0 = 0xE0"
        "\<not> (ii + 1 < ss_size \<and> ss ! nat (ii + 1) AND 0xC0 = 0x80 \<and>
           ii + 2 < ss_size \<and> ss ! nat (ii + 2) AND 0xC0 = 0x80)"
    by blast
  then show ?thesis
  proof cases
    case other
    then show ?thesis by (simp add: decode_utf8_def)
  next
    case four
    from lead4_excl [OF four] show ?thesis by (simp add: decode_utf8_def)
  next
    case cont
    from cont_excl [OF cont] show ?thesis by (simp add: decode_utf8_def)
  next
    case two
    from lead2_excl [OF two(1)] two show ?thesis by (simp add: decode_utf8_def)
  next
    case three
    from lead3_excl [OF three(1)] three show ?thesis by (auto simp: decode_utf8_def)
  qed
qed

subsection \<open>Input after a prefix that decodes\<close>

text \<open>
  When the decoder consumes a prefix without a zero byte, the loop on the whole input
  goes through the prefix as it does on the prefix alone, and then goes on at the first
  byte after it, unless it has failed before.
\<close>

lemma decode_utf8_append:
  assumes "0 \<le> ii" "ii < int (length pre)"
    and "decode_utf8 pre (int (length pre)) ii = Some x"
  shows "decode_utf8 (pre @ rest) (int (length (pre @ rest))) ii = Some x"
proof -
  let ?full = "pre @ rest"
  let ?b = "pre ! nat ii"
  have k0: "nat ii < length pre" using assms(1,2) by linarith
  have a0: "?full ! nat ii = ?b" using k0 by (simp add: nth_append)
  have n1: "?full ! nat (ii + 1) = pre ! nat (ii + 1)" if "ii + 1 < int (length pre)"
  proof -
    from that assms(1) have "nat (ii + 1) < length pre" by linarith
    then show ?thesis by (simp add: nth_append)
  qed
  have n2: "?full ! nat (ii + 2) = pre ! nat (ii + 2)" if "ii + 2 < int (length pre)"
  proof -
    from that assms(1) have "nat (ii + 2) < length pre" by linarith
    then show ?thesis by (simp add: nth_append)
  qed
  have lenle: "int (length pre) \<le> int (length ?full)" by simp
  consider (one) "?b AND 0x80 = 0"
    | (two) "?b AND 0x80 \<noteq> 0" "?b AND 0xE0 = 0xC0" "ii + 1 < int (length pre)"
        "pre ! nat (ii + 1) AND 0xC0 = 0x80"
    | (three) "?b AND 0x80 \<noteq> 0" "?b AND 0xF0 = 0xE0" "ii + 1 < int (length pre)"
        "pre ! nat (ii + 1) AND 0xC0 = 0x80" "ii + 2 < int (length pre)"
        "pre ! nat (ii + 2) AND 0xC0 = 0x80"
    using assms(3) by (auto simp: decode_utf8_def split: if_splits)
  then show ?thesis
  proof cases
    case one
    with assms(3) show ?thesis
      unfolding decode_utf8_def a0 by simp
  next
    case two
    from two(3) lenle have b1: "ii + 1 < int (length ?full)" by linarith
    from two assms(3) have x: "x = (push_bit 6 (unat (?b AND 0x1F))
                  + unat (pre ! nat (ii + 1) AND 0x3F), ii + 2)"
      by (simp add: decode_utf8_def)
    from two b1 n1 [OF two(3)] show ?thesis
      unfolding decode_utf8_def a0 x by simp
  next
    case three
    from three(3,5) lenle have b: "ii + 1 < int (length ?full)" "ii + 2 < int (length ?full)"
      by linarith+
    note no2 = lead3_excl(2) [OF three(2)]
    from three no2 assms(3) have x: "x = (push_bit 6 (push_bit 6 (unat (?b AND 0x0F))
                  + unat (pre ! nat (ii + 1) AND 0x3F))
                  + unat (pre ! nat (ii + 2) AND 0x3F), ii + 3)"
      by (simp add: decode_utf8_def)
    from three no2 b n1 [OF three(3)] n2 [OF three(5)] show ?thesis
      unfolding decode_utf8_def a0 x by simp
  qed
qed

lemma loop_prefix:
  assumes "0 \<notin> set pre" "n = int (length pre)" "0 \<le> ii" "ii \<le> n"
    and "snd (decoded_points pre n ii)"
  shows "password_loop bb (pre @ rest) (int (length (pre @ rest))) e ii r =
           (case password_loop bb pre n e ii r of
              Inl err \<Rightarrow> Inl err
            | Inr (bb1, k) \<Rightarrow>
                if k = - 1 then Inr (bb1, - 1)
                else password_loop bb1 (pre @ rest) (int (length (pre @ rest))) e n k)"
  using assms
proof (induction bb pre n e ii r rule: password_loop.induct)
  case (1 bb ss n e ii r)
  let ?full = "ss @ rest"
  let ?m = "int (length ?full)"
  show ?case
  proof (cases "ii < n \<and> r \<noteq> - 1")
    case False
    then consider "r = - 1" | "r \<noteq> - 1" "ii = n" using "1.prems" by force
    then show ?thesis
    proof cases
      case 1
      then show ?thesis by (simp add: loop_stop)
    next
      case 2
      then have "password_loop bb ss n e ii r = Inr (bb, r)"
        by (subst password_loop.simps) simp
      with 2 show ?thesis by simp
    qed
  next
    case True
    with "1.prems" have lt: "ii < int (length ss)" by simp
    with "1.prems" have k: "nat ii < length ss" by linarith
    with "1.prems"(1) have nz: "ss ! nat ii \<noteq> 0" by (metis nth_mem)
    from k have same: "?full ! nat ii = ss ! nat ii" by (simp add: nth_append)
    have inb: "ii < n \<and> ss ! nat ii \<noteq> 0 \<and> r \<noteq> - 1" using True nz by simp
    have inb': "ii < ?m \<and> ?full ! nat ii \<noteq> 0 \<and> r \<noteq> - 1" using True nz same lt by simp
    have "decode_utf8 ss n ii \<noteq> None"
    proof
      assume "decode_utf8 ss n ii = None"
      with True nz have "decoded_points ss n ii = ([], False)"
        by (simp add: decoded_points_bad)
      with "1.prems"(5) show False by simp
    qed
    then obtain data ii' where d: "decode_utf8 ss n ii = Some (data, ii')" by auto
    have d': "decode_utf8 ?full ?m ii = Some (data, ii')"
      using decode_utf8_append [of ii ss "(data, ii')" rest] "1.prems"(2,3) lt d by simp
    have adv: "0 \<le> ii'" "ii' \<le> n"
      using decode_utf8_advances [OF d] decode_utf8_within [OF _ d] True "1.prems" by auto
    have ok': "snd (decoded_points ss n ii')"
      using decoded_points_step [of ii n ss data ii'] True nz d "1.prems"(5) by simp
    show ?thesis
    proof (cases "accepted e data")
      case False
      with inb inb' d d' show ?thesis
        by (subst (1 2) password_loop.simps)
           (simp add: classify_eq [of e data r] loop_stop del: length_append)
    next
      case True
      let ?d = "fst (classify e data 0)"
      have cl: "classify e data r = (?d, r)" using True by (simp add: classify_eq [of e data r])
      show ?thesis
      proof (cases "store_byte bb r ?d")
        case (Inl err)
        with inb inb' d d' cl show ?thesis
          by (subst (1 2) password_loop.simps) (simp del: length_append)
      next
        case (Inr bb2)
        have rne: "r \<noteq> - 1" using inb by simp
        note ih = "1.IH"(1) [OF inb d refl cl [symmetric] rne Inr "1.prems"(1,2) adv ok']
        have l: "password_loop bb ?full ?m e ii r = password_loop bb2 ?full ?m e ii' (r + 1)"
          using inb' d' cl Inr by (subst password_loop.simps) (simp del: length_append)
        have p: "password_loop bb ss n e ii r = password_loop bb2 ss n e ii' (r + 1)"
          using inb d cl Inr by (subst password_loop.simps) simp
        show ?thesis unfolding l p by (rule ih)
      qed
    qed
  qed
qed

subsection \<open>Classification\<close>

lemma pdfdoc_switch_keys:
  "fst ` set pdfdoc_switch = {0x0152, 0x0153, 0x0160, 0x0161, 0x0178, 0x017D, 0x017E, 0x0192}"
  by (simp add: pdfdoc_switch_def insert_commute)

lemma pdfdoc_switch_keys_ge: "\<forall>k \<in> fst ` set pdfdoc_switch. 0x152 \<le> k \<and> k \<le> 0x192"
  by (simp add: pdfdoc_switch_def)

lemma decrypt_switch_keys_ge: "\<forall>k \<in> fst ` set decrypt_switch. 0x2C6 \<le> k"
  by (simp add: decrypt_switch_def)

lemma map_of_None_keys: "map_of xs k = None \<longleftrightarrow> k \<notin> fst ` set xs"
  by (rule map_of_eq_None_iff)

lemma accepted_strict:
  "accepted True cp \<longleftrightarrow>
     (0x20 \<le> cp \<and> cp < 0x7F \<or> 0xA0 \<le> cp \<and> cp \<le> 0xFF) \<or> cp \<in> fst ` set pdfdoc_switch"
proof (cases "map_of pdfdoc_switch cp")
  case None
  then have "cp \<notin> fst ` set pdfdoc_switch" by (simp add: map_of_None_keys)
  with None show ?thesis by (simp add: accepted_def classify_def)
next
  case (Some c)
  then have "cp \<in> fst ` set pdfdoc_switch" using map_of_None_keys [of pdfdoc_switch cp] by simp
  with Some show ?thesis by (simp add: accepted_def classify_def)
qed

lemma accepted_permissive:
  "accepted False cp \<longleftrightarrow>
     (0x20 \<le> cp \<and> cp < 0x7F \<or> 0xA0 \<le> cp \<and> cp \<le> 0xFF) \<or> cp \<in> fst ` set pdfdoc_switch
     \<or> (0x100 \<le> cp \<and> cp \<le> 0x1FF) \<or> cp \<in> fst ` set decrypt_switch"
proof (cases "map_of pdfdoc_switch cp")
  case None
  then have no: "cp \<notin> fst ` set pdfdoc_switch" by (simp add: map_of_None_keys)
  show ?thesis
  proof (cases "map_of decrypt_switch cp")
    case None
    then have "cp \<notin> fst ` set decrypt_switch" by (simp add: map_of_None_keys)
    with None no \<open>map_of pdfdoc_switch cp = None\<close> show ?thesis
      by (simp add: accepted_def classify_def)
  next
    case (Some c)
    then have "cp \<in> fst ` set decrypt_switch" using map_of_None_keys [of decrypt_switch cp] by simp
    with Some no \<open>map_of pdfdoc_switch cp = None\<close> show ?thesis
      by (simp add: accepted_def classify_def)
  qed
next
  case (Some c)
  then have "cp \<in> fst ` set pdfdoc_switch" using map_of_None_keys [of pdfdoc_switch cp] by simp
  with Some show ?thesis by (simp add: accepted_def classify_def)
qed

lemma strict_classify_permissive:
  assumes "accepted True cp"
  shows "classify False cp r = classify True cp r"
proof (cases "0x20 \<le> cp \<and> cp < 0x7F \<or> 0xA0 \<le> cp \<and> cp \<le> 0xFF")
  case True
  then show ?thesis by (simp add: classify_def)
next
  case False
  with assms show ?thesis
    by (cases "map_of pdfdoc_switch cp") (auto simp: accepted_def classify_def)
qed

lemma direct_classify:
  "0x20 \<le> cp \<and> cp < 0x7F \<or> 0xA0 \<le> cp \<and> cp \<le> 0xFF \<Longrightarrow> classify e cp r = (cp, r)"
  by (simp add: classify_def)

lemma control_refused:
  assumes "1 \<le> cp \<and> cp \<le> 0x1F \<or> 0x7F \<le> cp \<and> cp \<le> 0x9F"
  shows "\<not> accepted e cp"
proof -
  from assms pdfdoc_switch_keys_ge have "cp \<notin> fst ` set pdfdoc_switch" by fastforce
  moreover from assms decrypt_switch_keys_ge have "cp \<notin> fst ` set decrypt_switch" by fastforce
  ultimately show ?thesis
    using assms by (cases e) (auto simp: accepted_strict accepted_permissive)
qed

lemma special_bytes:
  assumes "cp \<in> {0x0152, 0x0153, 0x0160, 0x0161, 0x0178, 0x017D, 0x017E, 0x0192}"
  shows "0x80 \<le> emitted True cp \<and> emitted True cp \<le> 0x9F"
  using assms by (auto simp: emitted_def classify_def pdfdoc_switch_def)

lemma unat_emitted_direct:
  assumes "cp \<le> 0xFF"
  shows "unat (of_nat cp :: byte) = cp"
  using assms by (simp add: unat_of_nat)

subsection \<open>The table\<close>

lemma table_length: "length unicode_latin_extended_windows_map = 256"
  by (simp add: unicode_latin_extended_windows_map_def)

lemma table_bytes: "\<forall>c \<in> set unicode_latin_extended_windows_map. c \<le> 0xFF"
  by (simp add: unicode_latin_extended_windows_map_def)

lemma table_classify:
  assumes "0x100 \<le> cp" "cp \<le> 0x1FF"
  shows "classify False cp r =
           (case map_of pdfdoc_switch cp of
              Some c \<Rightarrow> (c, r)
            | None \<Rightarrow> (unicode_latin_extended_windows_map ! (cp - 0x100), r))"
  using assms by (simp add: classify_def split: option.splits)

lemma table_entry_byte:
  assumes "0x100 \<le> cp" "cp \<le> 0x1FF"
  shows "unicode_latin_extended_windows_map ! (cp - 0x100) \<le> 0xFF"
proof -
  from assms have "cp - 0x100 < length unicode_latin_extended_windows_map"
    by (simp add: table_length)
  then have "unicode_latin_extended_windows_map ! (cp - 0x100) \<in> set unicode_latin_extended_windows_map"
    by (rule nth_mem)
  with table_bytes show ?thesis by blast
qed

lemma special_table_agree:
  assumes "cp \<in> {0x0152, 0x0153, 0x0178, 0x017D, 0x017E}"
  shows "unat (emitted False cp) = unicode_latin_extended_windows_map ! (cp - 0x100)"
  using assms
  by (auto simp: emitted_def classify_def pdfdoc_switch_def unicode_latin_extended_windows_map_def)

lemma table_emitted:
  assumes "0x100 \<le> cp" "cp \<le> 0x1FF" "cp \<notin> {0x0160, 0x0161, 0x0192}"
  shows "unat (emitted False cp) = unicode_latin_extended_windows_map ! (cp - 0x100)"
proof (cases "map_of pdfdoc_switch cp")
  case None
  with assms(1,2) have "classify False cp 0 = (unicode_latin_extended_windows_map ! (cp - 0x100), 0)"
    by (simp add: table_classify)
  with table_entry_byte [OF assms(1,2)] show ?thesis
    by (simp add: emitted_def unat_emitted_direct)
next
  case (Some c)
  then have "cp \<in> fst ` set pdfdoc_switch"
    using map_of_None_keys [of pdfdoc_switch cp] by simp
  then have "cp \<in> {0x0152, 0x0153, 0x0160, 0x0161, 0x0178, 0x017D, 0x017E, 0x0192}"
    by (simp only: pdfdoc_switch_keys)
  with assms(3) have "cp \<in> {0x0152, 0x0153, 0x0178, 0x017D, 0x017E}" by blast
  then show ?thesis by (rule special_table_agree)
qed

lemma table_accepted: "0x100 \<le> cp \<Longrightarrow> cp \<le> 0x1FF \<Longrightarrow> accepted False cp"
  by (simp add: accepted_permissive)

subsection \<open>The whole call\<close>

lemma dry_run:
  "utf8_password_to_pdfdoc None ss n e =
     Inr (None, if decodable ss n \<and> list_all (accepted e) (code_points ss n)
                then int (length (code_points ss n)) else - 1)"
  unfolding utf8_password_to_pdfdoc_def decodable_def code_points_def
  using loop_dry [of 0 ss n e 0] by simp

lemma any_run:
  assumes "utf8_password_to_pdfdoc bb ss n e = Inr (bb', r)"
  shows "r = (if decodable ss n \<and> list_all (accepted e) (code_points ss n)
              then int (length (code_points ss n)) else - 1)"
proof -
  from assms have "utf8_password_to_pdfdoc None ss n e = Inr (None, r)"
    unfolding utf8_password_to_pdfdoc_def by (rule loop_same_integer)
  then show ?thesis by (simp add: dry_run)
qed

lemma real_run:
  assumes "length (takeWhile (accepted e) (code_points ss n)) \<le> length buf"
  shows "utf8_password_to_pdfdoc (Some buf) ss n e =
     Inr (Some (map (emitted e) (takeWhile (accepted e) (code_points ss n))
                @ drop (length (takeWhile (accepted e) (code_points ss n))) buf),
          if decodable ss n \<and> list_all (accepted e) (code_points ss n)
          then int (length (code_points ss n)) else - 1)"
  using assms loop_real [of 0 e ss n 0 buf]
  unfolding utf8_password_to_pdfdoc_def decodable_def code_points_def by simp

lemma real_run_nth:
  assumes "decodable ss n" "list_all (accepted e) (code_points ss n)"
          "length (code_points ss n) \<le> length buf" "k < length (code_points ss n)"
  shows "\<exists>out. utf8_password_to_pdfdoc (Some buf) ss n e
                  = Inr (Some out, int (length (code_points ss n))) \<and>
               length out = length buf \<and>
               out ! k = emitted e (code_points ss n ! k)"
proof -
  let ?cps = "code_points ss n"
  from assms(2) have tw: "takeWhile (accepted e) ?cps = ?cps"
    by (simp add: list_all_iff)
  from real_run [of e ss n buf] assms(1,2,3) tw
  have "utf8_password_to_pdfdoc (Some buf) ss n e
          = Inr (Some (map (emitted e) ?cps @ drop (length ?cps) buf), int (length ?cps))"
    by simp
  moreover from assms(4)
  have "(map (emitted e) ?cps @ drop (length ?cps) buf) ! k = emitted e (?cps ! k)"
    by (simp add: nth_append)
  moreover from assms(3)
  have "length (map (emitted e) ?cps @ drop (length ?cps) buf) = length buf" by simp
  ultimately show ?thesis by blast
qed

lemma code_points_length: "0 \<le> n \<Longrightarrow> int (length (code_points ss n)) \<le> n"
  using decoded_points_length [of 0 n ss] by (simp add: code_points_def)

lemma code_points_fit:
  assumes "n \<le> int (length buf)"
  shows "length (takeWhile (accepted e) (code_points ss n)) \<le> length buf"
proof (cases "0 \<le> n")
  case True
  have "length (takeWhile (accepted e) (code_points ss n)) \<le> length (code_points ss n)"
    by (rule length_takeWhile_le)
  also have "int (length (code_points ss n)) \<le> n" using True by (rule code_points_length)
  finally show ?thesis using assms by linarith
next
  case False
  then have "code_points ss n = []"
    by (simp add: code_points_def decoded_points_stop)
  then show ?thesis by simp
qed

section \<open>The claims\<close>

subsection \<open>C1: when the sentinel is returned\<close>




subsection \<open>C2: what the encrypting mode accepts\<close>

text \<open>
  C2: with \<open>encrypt_b\<close> set, a code point is accepted exactly when it is in
  \<open>0x20 .. 0x7E\<close> or \<open>0xA0 .. 0xFF\<close> or is one of U+0152, U+0153, U+0160, U+0161,
  U+0178, U+017D, U+017E, U+0192; each of these eight is stored as a byte in
  \<open>0x80 .. 0x9F\<close>; the dry run differs from \<open>-1\<close> exactly when the input decodes and
  all its code points are of these kinds; and a run that meets any other code point
  returns \<open>-1\<close>.
\<close>

theorem C2_strict_accepts:
  "(accepted True cp \<longleftrightarrow>
      (0x20 \<le> cp \<and> cp < 0x7F \<or> 0xA0 \<le> cp \<and> cp \<le> 0xFF) \<or>
      cp \<in> {0x0152, 0x0153, 0x0160, 0x0161, 0x0178, 0x017D, 0x017E, 0x0192}) \<and>
   (cp \<in> {0x0152, 0x0153, 0x0160, 0x0161, 0x0178, 0x017D, 0x017E, 0x0192} \<longrightarrow>
      0x80 \<le> emitted True cp \<and> emitted True cp \<le> 0x9F) \<and>
   (utf8_password_to_pdfdoc None ss ss_size True \<noteq> Inr (None, - 1) \<longleftrightarrow>
      decodable ss ss_size \<and>
      (\<forall>c \<in> set (code_points ss ss_size).
         (0x20 \<le> c \<and> c < 0x7F \<or> 0xA0 \<le> c \<and> c \<le> 0xFF) \<or>
         c \<in> {0x0152, 0x0153, 0x0160, 0x0161, 0x0178, 0x017D, 0x017E, 0x0192})) \<and>
   (utf8_password_to_pdfdoc bb ss ss_size True = Inr (bb', r) \<and>
    (\<exists>c \<in> set (code_points ss ss_size).
         \<not> ((0x20 \<le> c \<and> c < 0x7F \<or> 0xA0 \<le> c \<and> c \<le> 0xFF) \<or>
            c \<in> {0x0152, 0x0153, 0x0160, 0x0161, 0x0178, 0x017D, 0x017E, 0x0192}))
    \<longrightarrow> r = - 1)"
proof (intro conjI)
  show "accepted True cp \<longleftrightarrow>
      (0x20 \<le> cp \<and> cp < 0x7F \<or> 0xA0 \<le> cp \<and> cp \<le> 0xFF) \<or>
      cp \<in> {0x0152, 0x0153, 0x0160, 0x0161, 0x0178, 0x017D, 0x017E, 0x0192}"
    unfolding pdfdoc_switch_keys [symmetric] by (rule accepted_strict)
  show "cp \<in> {0x0152, 0x0153, 0x0160, 0x0161, 0x0178, 0x017D, 0x017E, 0x0192} \<longrightarrow>
      0x80 \<le> emitted True cp \<and> emitted True cp \<le> 0x9F"
    using special_bytes by blast
  show "utf8_password_to_pdfdoc None ss ss_size True \<noteq> Inr (None, - 1) \<longleftrightarrow>
      decodable ss ss_size \<and>
      (\<forall>c \<in> set (code_points ss ss_size).
         (0x20 \<le> c \<and> c < 0x7F \<or> 0xA0 \<le> c \<and> c \<le> 0xFF) \<or>
         c \<in> {0x0152, 0x0153, 0x0160, 0x0161, 0x0178, 0x017D, 0x017E, 0x0192})"
    unfolding pdfdoc_switch_keys [symmetric] accepted_strict [symmetric]
    by (simp add: dry_run list_all_iff)
  show "utf8_password_to_pdfdoc bb ss ss_size True = Inr (bb', r) \<and>
    (\<exists>c \<in> set (code_points ss ss_size).
         \<not> ((0x20 \<le> c \<and> c < 0x7F \<or> 0xA0 \<le> c \<and> c \<le> 0xFF) \<or>
            c \<in> {0x0152, 0x0153, 0x0160, 0x0161, 0x0178, 0x017D, 0x017E, 0x0192}))
    \<longrightarrow> r = - 1"
    unfolding pdfdoc_switch_keys [symmetric] accepted_strict [symmetric]
    by (auto dest!: any_run simp: list_all_iff)
qed

theorem C2_strict_accepts_witness:
  "accepted True 0x41 \<and> accepted True 0xE9 \<and> accepted True 0x0152 \<and>
   emitted True 0x0152 = 0x96 \<and> emitted True 0x0192 = 0x86 \<and>
   \<not> accepted True 0x2014 \<and> \<not> accepted True 0x0100 \<and>
   code_points [0xC5, 0x92, 0x41] 3 = [0x0152, 0x41] \<and>
   utf8_password_to_pdfdoc (Some [0, 0]) [0xC5, 0x92, 0x41] 3 True = Inr (Some [0x96, 0x41], 2) \<and>
   code_points [0x41, 0xE2, 0x80, 0x94] 4 = [0x41, 0x2014] \<and>
   utf8_password_to_pdfdoc (Some [0]) [0x41, 0xE2, 0x80, 0x94] 4 True = Inr (Some [0x41], - 1)"
proof -
  have c1: "code_points [0xC5, 0x92, 0x41] 3 = [0x0152, 0x41]" by (simp add: codec_eval)
  have c2: "code_points [0x41, 0xE2, 0x80, 0x94] 4 = [0x41, 0x2014]" by (simp add: codec_eval)
  have r1: "utf8_password_to_pdfdoc (Some [0, 0]) [0xC5, 0x92, 0x41] 3 True
              = Inr (Some [0x96, 0x41], 2)"
    by (simp add: codec_eval)
  have r2: "utf8_password_to_pdfdoc (Some [0]) [0x41, 0xE2, 0x80, 0x94] 4 True
              = Inr (Some [0x41], - 1)"
    by (simp add: codec_eval)
  have e: "emitted True 0x0152 = 0x96" "emitted True 0x0192 = 0x86" by (simp_all add: codec_eval)
  from C2_strict_accepts [of "0x41" "[0xC5, 0x92, 0x41]" 3 "Some [0, 0]" "Some [0x96, 0x41]" 2]
  have a1: "accepted True 0x41" by simp
  from C2_strict_accepts [of "0xE9" "[0xC5, 0x92, 0x41]" 3 "Some [0, 0]" "Some [0x96, 0x41]" 2]
  have a2: "accepted True 0xE9" by simp
  from C2_strict_accepts [of "0x0152" "[0xC5, 0x92, 0x41]" 3 "Some [0, 0]" "Some [0x96, 0x41]" 2]
  have a3: "accepted True 0x0152" by simp
  from C2_strict_accepts [of "0x2014" "[0x41, 0xE2, 0x80, 0x94]" 4 "Some [0]" "Some [0x41]" "- 1"]
  have a4: "\<not> accepted True 0x2014" by simp
  from C2_strict_accepts [of "0x0100" "[0x41, 0xE2, 0x80, 0x94]" 4 "Some [0]" "Some [0x41]" "- 1"]
  have a5: "\<not> accepted True 0x0100" by simp
  from a1 a2 a3 a4 a5 e c1 c2 r1 r2 show ?thesis by simp
qed

subsection \<open>C3: what encrypting accepts, decrypting accepts\<close>

text \<open>
  C3: when the call with \<open>encrypt_b\<close> set returns a count \<open>n \<ge> 0\<close>, the call on the same
  input and buffer with \<open>encrypt_b\<close> clear returns the same count, and the same buffer.
\<close>

theorem C3_strict_subset_permissive:
  assumes "utf8_password_to_pdfdoc bb ss ss_size True = Inr (bb', n)" and "0 \<le> n"
  shows "utf8_password_to_pdfdoc bb ss ss_size False = Inr (bb', n)"
proof -
  from assms(2) have "n \<noteq> - 1" by simp
  with assms(1) show ?thesis
    unfolding utf8_password_to_pdfdoc_def
    by (rule loop_mode_mono) (rule strict_classify_permissive)
qed

theorem C3_strict_subset_permissive_witness:
  "utf8_password_to_pdfdoc None [0x63, 0x61, 0x66, 0xC3, 0xA9] 5 True = Inr (None, 4) \<and>
   (0::int) \<le> 4 \<and>
   utf8_password_to_pdfdoc None [0x63, 0x61, 0x66, 0xC3, 0xA9] 5 False = Inr (None, 4)"
proof -
  have h: "utf8_password_to_pdfdoc None [0x63, 0x61, 0x66, 0xC3, 0xA9] 5 True = Inr (None, 4)"
    by (simp add: codec_eval)
  have k: "(0::int) \<le> 4" by simp
  from C3_strict_subset_permissive [OF h k] h k show ?thesis by simp
qed

subsection \<open>C4: printable ASCII and the upper half of Latin-1\<close>

text \<open>
  C4: a code point in \<open>0x20 .. 0x7E\<close> or \<open>0xA0 .. 0xFF\<close> leaves \<open>classify\<close> unchanged, with
  \<open>ret_val\<close> kept, in both modes; the byte stored for it has its value; and in a
  successful run with a buffer, the byte at the position of such a code point is the
  code point.
\<close>

theorem C4_direct_unchanged:
  assumes "0x20 \<le> cp \<and> cp \<le> 0x7E \<or> 0xA0 \<le> cp \<and> cp \<le> 0xFF"
  shows "classify encrypt_b cp ret_val = (cp, ret_val) \<and>
         accepted encrypt_b cp \<and> unat (emitted encrypt_b cp) = cp \<and>
         (decodable ss ss_size \<and> list_all (accepted encrypt_b) (code_points ss ss_size) \<and>
          length (code_points ss ss_size) \<le> length buf \<and>
          k < length (code_points ss ss_size) \<and> code_points ss ss_size ! k = cp \<longrightarrow>
          (\<exists>out. utf8_password_to_pdfdoc (Some buf) ss ss_size encrypt_b
                    = Inr (Some out, int (length (code_points ss ss_size))) \<and>
                 unat (out ! k) = cp))"
proof -
  from assms have d: "0x20 \<le> cp \<and> cp < 0x7F \<or> 0xA0 \<le> cp \<and> cp \<le> 0xFF" by auto
  from assms have le: "cp \<le> 0xFF" by auto
  have cl: "classify encrypt_b cp r = (cp, r)" for r
    using d by (rule direct_classify)
  have acc: "accepted encrypt_b cp" using cl [of 0] by (simp add: accepted_def)
  have em: "unat (emitted encrypt_b cp) = cp"
    using cl [of 0] le by (simp add: emitted_def unat_emitted_direct)
  have run: "\<exists>out. utf8_password_to_pdfdoc (Some buf) ss ss_size encrypt_b
                    = Inr (Some out, int (length (code_points ss ss_size))) \<and>
                 unat (out ! k) = cp"
    if h: "decodable ss ss_size" "list_all (accepted encrypt_b) (code_points ss ss_size)"
          "length (code_points ss ss_size) \<le> length buf"
          "k < length (code_points ss ss_size)" "code_points ss ss_size ! k = cp"
  proof -
    let ?cps = "code_points ss ss_size"
    from h(2) have tw: "takeWhile (accepted encrypt_b) ?cps = ?cps"
      by (simp add: list_all_iff)
    from real_run [of encrypt_b ss ss_size buf] h(1,2,3) tw
    have "utf8_password_to_pdfdoc (Some buf) ss ss_size encrypt_b
            = Inr (Some (map (emitted encrypt_b) ?cps @ drop (length ?cps) buf),
                   int (length ?cps))"
      by simp
    moreover from h(4,5) em
    have "unat ((map (emitted encrypt_b) ?cps @ drop (length ?cps) buf) ! k) = cp"
      by (simp add: nth_append)
    ultimately show ?thesis by blast
  qed
  from cl acc em run show ?thesis by blast
qed

theorem C4_direct_unchanged_witness:
  "(0xA0 \<le> (0xE9::nat) \<and> (0xE9::nat) \<le> 0xFF) \<and>
   classify True 0xE9 3 = (0xE9, 3) \<and> classify False 0xE9 3 = (0xE9, 3) \<and>
   decodable [0x63, 0x61, 0x66, 0xC3, 0xA9] 5 \<and>
   code_points [0x63, 0x61, 0x66, 0xC3, 0xA9] 5 = [0x63, 0x61, 0x66, 0xE9] \<and>
   list_all (accepted True) [0x63, 0x61, 0x66, 0xE9] \<and>
   utf8_password_to_pdfdoc (Some [0, 0, 0, 0]) [0x63, 0x61, 0x66, 0xC3, 0xA9] 5 True
     = Inr (Some [0x63, 0x61, 0x66, 0xE9], 4) \<and>
   utf8_password_to_pdfdoc (Some [0, 0, 0, 0]) [0x63, 0x61, 0x66, 0xC3, 0xA9] 5 False
     = Inr (Some [0x63, 0x61, 0x66, 0xE9], 4)"
proof -
  have a: "0xA0 \<le> (0xE9::nat) \<and> (0xE9::nat) \<le> 0xFF" by simp
  then have a': "0x20 \<le> (0xE9::nat) \<and> (0xE9::nat) \<le> 0x7E \<or> 0xA0 \<le> (0xE9::nat) \<and> (0xE9::nat) \<le> 0xFF"
    by simp
  have d: "decodable [0x63, 0x61, 0x66, 0xC3, 0xA9] 5" by (simp add: codec_eval)
  have c: "code_points [0x63, 0x61, 0x66, 0xC3, 0xA9] 5 = [0x63, 0x61, 0x66, 0xE9]"
    by (simp add: codec_eval)
  have l: "list_all (accepted True) [0x63, 0x61, 0x66, 0xE9]" by (simp add: codec_eval)
  have r1: "utf8_password_to_pdfdoc (Some [0, 0, 0, 0]) [0x63, 0x61, 0x66, 0xC3, 0xA9] 5 True
     = Inr (Some [0x63, 0x61, 0x66, 0xE9], 4)" by (simp add: codec_eval)
  have r2: "utf8_password_to_pdfdoc (Some [0, 0, 0, 0]) [0x63, 0x61, 0x66, 0xC3, 0xA9] 5 False
     = Inr (Some [0x63, 0x61, 0x66, 0xE9], 4)" by (simp add: codec_eval)
  from C4_direct_unchanged [OF a', of True 3 "[0x63, 0x61, 0x66, 0xC3, 0xA9]" 5 "[0, 0, 0, 0]" 3]
  have t: "classify True 0xE9 3 = (0xE9, 3)" by blast
  from C4_direct_unchanged [OF a', of False 3 "[0x63, 0x61, 0x66, 0xC3, 0xA9]" 5 "[0, 0, 0, 0]" 3]
  have f: "classify False 0xE9 3 = (0xE9, 3)" by blast
  from a d c l r1 r2 t f show ?thesis by simp
qed


subsection \<open>C5: a sequence that does not decode\<close>

text \<open>
  Claim C5 says that in every input a lead byte outside the three patterns, or a
  sequence without its continuation bytes, makes the call return \<open>-1\<close>. The loop stops
  at a zero byte, so such a sequence after a zero byte is never decoded: on \<open>41 00 C3\<close>
  the lead byte \<open>C3\<close> has no continuation byte and \<open>decode_utf8\<close> refuses it, but the
  call returns \<open>1\<close>; on \<open>00 F0 9F 98 80\<close>, with the lead byte \<open>F0\<close> of a four-byte
  sequence, it returns \<open>0\<close>.
\<close>

theorem C5_reached_counterexample:
  "decode_utf8 [0x41, 0x00, 0xC3] 3 2 = None \<and>
   utf8_password_to_pdfdoc None [0x41, 0x00, 0xC3] 3 True = Inr (None, 1) \<and>
   utf8_password_to_pdfdoc None [0x41, 0x00, 0xC3] 3 False = Inr (None, 1) \<and>
   decode_utf8 [0x00, 0xF0, 0x9F, 0x98, 0x80] 5 1 = None \<and>
   utf8_password_to_pdfdoc None [0x00, 0xF0, 0x9F, 0x98, 0x80] 5 True = Inr (None, 0) \<and>
   utf8_password_to_pdfdoc None [0x00, 0xF0, 0x9F, 0x98, 0x80] 5 False = Inr (None, 0)"
  by (simp add: codec_eval)

text \<open>
  C5, as the code has it: let the input be \<open>pre @ rest\<close>, where \<open>pre\<close> has no zero byte
  and is made of sequences that decode, so that the first byte of \<open>rest\<close> is a lead
  byte, and this byte is not zero. When it matches none of the patterns \<open>0xxxxxxx\<close>,
  \<open>110xxxxx\<close>, \<open>1110xxxx\<close> (as every byte \<open>1111xxxx\<close>, the lead byte of a longer sequence,
  and every continuation byte \<open>10xxxxxx\<close> does), or matches the two- or three-byte
  pattern without its continuation bytes \<open>10xxxxxx\<close> below \<open>ss_size\<close>, the call returns
  \<open>-1\<close> in both modes. It returns at once: the buffer it leaves is the one the call on
  \<open>pre\<close> alone leaves, whatever follows in \<open>rest\<close>; and in any iteration that stands at
  this byte the loop returns \<open>-1\<close> with its buffer as it is.
\<close>

theorem C5_bad_sequence_fails:
  fixes pre rest :: "byte list"
  assumes "0 \<notin> set pre" and "decodable pre (int (length pre))"
  and "ss = pre @ rest" and "ss_size = int (length ss)" and "ii = int (length pre)"
  and "ii < ss_size" and "ss ! nat ii \<noteq> 0"
  and "(ss ! nat ii AND 0x80 \<noteq> 0 \<and> ss ! nat ii AND 0xE0 \<noteq> 0xC0 \<and> ss ! nat ii AND 0xF0 \<noteq> 0xE0)
     \<or> ss ! nat ii AND 0xF0 = 0xF0
     \<or> ss ! nat ii AND 0xC0 = 0x80
     \<or> (ss ! nat ii AND 0xE0 = 0xC0 \<and>
          \<not> (ii + 1 < ss_size \<and> ss ! nat (ii + 1) AND 0xC0 = 0x80))
     \<or> (ss ! nat ii AND 0xF0 = 0xE0 \<and>
          \<not> (ii + 1 < ss_size \<and> ss ! nat (ii + 1) AND 0xC0 = 0x80 \<and>
             ii + 2 < ss_size \<and> ss ! nat (ii + 2) AND 0xC0 = 0x80))"
  shows "utf8_password_to_pdfdoc None ss ss_size encrypt_b = Inr (None, - 1) \<and>
         (utf8_password_to_pdfdoc bb pre (int (length pre)) encrypt_b = Inr (bb1, k) \<longrightarrow>
            utf8_password_to_pdfdoc bb ss ss_size encrypt_b = Inr (bb1, - 1)) \<and>
         (utf8_password_to_pdfdoc bb pre (int (length pre)) encrypt_b = Inl err \<longrightarrow>
            utf8_password_to_pdfdoc bb ss ss_size encrypt_b = Inl err) \<and>
         (ret_val \<noteq> - 1 \<longrightarrow>
            password_loop bb ss ss_size encrypt_b ii ret_val = Inr (bb, - 1))"
proof -
  have none: "decode_utf8 ss ss_size ii = None"
    using assms(8) by (rule decode_utf8_refuses)
  have stop: "password_loop b ss ss_size encrypt_b ii r = Inr (b, - 1)" if "r \<noteq> - 1" for b r
    using assms(6,7) that none by (rule loop_bad_sequence)
  have ok: "snd (decoded_points pre (int (length pre)) 0)"
    using assms(2) by (simp add: decodable_def)
  have pref: "password_loop b ss ss_size encrypt_b 0 0 =
           (case password_loop b pre (int (length pre)) encrypt_b 0 0 of
              Inl err \<Rightarrow> Inl err
            | Inr (bb1, k) \<Rightarrow>
                if k = - 1 then Inr (bb1, - 1)
                else password_loop bb1 ss ss_size encrypt_b ii k)" for b
    unfolding assms(3,4,5)
    using assms(1) ok by (intro loop_prefix) simp_all
  have run: "utf8_password_to_pdfdoc b ss ss_size encrypt_b = Inr (b1, - 1)"
    if "utf8_password_to_pdfdoc b pre (int (length pre)) encrypt_b = Inr (b1, j)" for b b1 j
    using that pref [of b] stop [of j b1]
    by (cases "j = - 1") (simp_all add: utf8_password_to_pdfdoc_def)
  have err: "utf8_password_to_pdfdoc bb ss ss_size encrypt_b = Inl err"
    if "utf8_password_to_pdfdoc bb pre (int (length pre)) encrypt_b = Inl err"
    using that pref [of bb] by (simp add: utf8_password_to_pdfdoc_def)
  obtain j where "utf8_password_to_pdfdoc None pre (int (length pre)) encrypt_b = Inr (None, j)"
    by (simp add: dry_run)
  from run [OF this] have dry: "utf8_password_to_pdfdoc None ss ss_size encrypt_b = Inr (None, - 1)" .
  from dry run err stop show ?thesis by blast
qed

theorem C5_bad_sequence_fails_witness:
  "(0::byte) \<notin> set [0x41] \<and> decodable [0x41] 1 \<and>
   utf8_password_to_pdfdoc (Some [0, 0]) [0x41] 1 False = Inr (Some [0x41, 0], 1) \<and>
   utf8_password_to_pdfdoc (Some [0, 0]) [0x41, 0xF0, 0x9F, 0x98, 0x80, 0x42] 6 False
     = Inr (Some [0x41, 0], - 1) \<and>
   utf8_password_to_pdfdoc None [0x41, 0xF0, 0x9F, 0x98, 0x80, 0x42] 6 True = Inr (None, - 1) \<and>
   utf8_password_to_pdfdoc None [0x41, 0xC3] 2 True = Inr (None, - 1) \<and>
   utf8_password_to_pdfdoc None [0x41, 0xC3, 0x41] 3 False = Inr (None, - 1) \<and>
   utf8_password_to_pdfdoc None [0x41, 0xE2, 0x80] 3 True = Inr (None, - 1) \<and>
   utf8_password_to_pdfdoc None [0x41, 0x80, 0x41] 3 False = Inr (None, - 1) \<and>
   decodable [] 0 \<and>
   utf8_password_to_pdfdoc None [0xC3] 1 True = Inr (None, - 1)"
proof -
  have z: "(0::byte) \<notin> set [0x41]" by simp
  have d: "decodable [0x41] 1" by (simp add: codec_eval)
  have d': "decodable [0x41] (int (length [0x41 :: byte]))" using d by simp
  have p: "utf8_password_to_pdfdoc (Some [0, 0]) [0x41] 1 False = Inr (Some [0x41, 0], 1)"
    by (simp add: codec_eval)
  have z0: "(0::byte) \<notin> set []" by simp
  have d0: "decodable [] 0" by (simp add: codec_eval)
  have d0': "decodable [] (int (length ([] :: byte list)))" using d0 by simp
  have t1: "utf8_password_to_pdfdoc (Some [0, 0]) [0x41, 0xF0, 0x9F, 0x98, 0x80, 0x42] 6 False
     = Inr (Some [0x41, 0], - 1)"
    using C5_bad_sequence_fails [OF z d', of "[0x41, 0xF0, 0x9F, 0x98, 0x80, 0x42]"
        "[0xF0, 0x9F, 0x98, 0x80, 0x42]" 6 1 False "Some [0, 0]" "Some [0x41, 0]" 1] p
    by simp
  have t2: "utf8_password_to_pdfdoc None [0x41, 0xF0, 0x9F, 0x98, 0x80, 0x42] 6 True = Inr (None, - 1)"
    using C5_bad_sequence_fails [OF z d', of "[0x41, 0xF0, 0x9F, 0x98, 0x80, 0x42]"
        "[0xF0, 0x9F, 0x98, 0x80, 0x42]" 6 1 True]
    by simp
  have t3: "utf8_password_to_pdfdoc None [0x41, 0xC3] 2 True = Inr (None, - 1)"
    using C5_bad_sequence_fails [OF z d', of "[0x41, 0xC3]" "[0xC3]" 2 1 True] by simp
  have t4: "utf8_password_to_pdfdoc None [0x41, 0xC3, 0x41] 3 False = Inr (None, - 1)"
    using C5_bad_sequence_fails [OF z d', of "[0x41, 0xC3, 0x41]" "[0xC3, 0x41]" 3 1 False] by simp
  have t5: "utf8_password_to_pdfdoc None [0x41, 0xE2, 0x80] 3 True = Inr (None, - 1)"
    using C5_bad_sequence_fails [OF z d', of "[0x41, 0xE2, 0x80]" "[0xE2, 0x80]" 3 1 True] by simp
  have t6: "utf8_password_to_pdfdoc None [0x41, 0x80, 0x41] 3 False = Inr (None, - 1)"
    using C5_bad_sequence_fails [OF z d', of "[0x41, 0x80, 0x41]" "[0x80, 0x41]" 3 1 False] by simp
  have t7: "utf8_password_to_pdfdoc None [0xC3] 1 True = Inr (None, - 1)"
    using C5_bad_sequence_fails [OF z0 d0', of "[0xC3]" "[0xC3]" 1 0 True] by simp
  from z d p d0 t1 t2 t3 t4 t5 t6 t7 show ?thesis by simp
qed

subsection \<open>C6: the table for U+0100 .. U+01FF\<close>

text \<open>
  Claim C6 says that with \<open>encrypt_b\<close> clear every code point in U+0100 .. U+01FF is
  stored as its table entry. The outer \<open>switch\<close> comes before the table: U+0160 is
  stored as \<open>0x97\<close> (octal 0227), while its table entry is \<open>0x8A\<close>.
\<close>

theorem C6_switch_before_table_counterexample:
  "0x0100 \<le> (0x0160::nat) \<and> (0x0160::nat) \<le> 0x01FF \<and>
   code_points [0xC5, 0xA0] 2 = [0x0160] \<and>
   utf8_password_to_pdfdoc (Some [0]) [0xC5, 0xA0] 2 False = Inr (Some [0x97], 1) \<and>
   unicode_latin_extended_windows_map ! (0x0160 - 0x100) = 0x8A"
  by (simp add: codec_eval unicode_latin_extended_windows_map_def)

text \<open>
  C6, as the code has it: the table has 256 entries; with \<open>encrypt_b\<close> clear every code
  point in U+0100 .. U+01FF is accepted, and it is stored as the table entry at
  \<open>cp - 0x100\<close> unless it is U+0160, U+0161 or U+0192, which the outer \<open>switch\<close> stores as
  \<open>0x97\<close>, \<open>0x9D\<close> and \<open>0x86\<close>; U+0100 is stored as \<open>0x41\<close>, the letter A; and with
  \<open>encrypt_b\<close> set an input whose decoded code points contain U+0100 returns \<open>-1\<close>.
\<close>

theorem C6_table_remap:
  "length unicode_latin_extended_windows_map = 256 \<and>
   (0x0100 \<le> cp \<and> cp \<le> 0x01FF \<longrightarrow>
      accepted False cp \<and>
      (cp \<notin> {0x0160, 0x0161, 0x0192} \<longrightarrow>
         unat (emitted False cp) = unicode_latin_extended_windows_map ! (cp - 0x100)) \<and>
      (decodable ss ss_size \<and> list_all (accepted False) (code_points ss ss_size) \<and>
       length (code_points ss ss_size) \<le> length buf \<and>
       k < length (code_points ss ss_size) \<and> code_points ss ss_size ! k = cp \<and>
       cp \<notin> {0x0160, 0x0161, 0x0192} \<longrightarrow>
       (\<exists>out. utf8_password_to_pdfdoc (Some buf) ss ss_size False
                 = Inr (Some out, int (length (code_points ss ss_size))) \<and>
              unat (out ! k) = unicode_latin_extended_windows_map ! (cp - 0x100)))) \<and>
   emitted False 0x0160 = 0x97 \<and> emitted False 0x0161 = 0x9D \<and> emitted False 0x0192 = 0x86 \<and>
   emitted False 0x0100 = 0x41 \<and>
   (0x0100 \<in> set (code_points ss ss_size) \<longrightarrow>
      utf8_password_to_pdfdoc None ss ss_size True = Inr (None, - 1))"
proof (intro conjI impI)
  show "length unicode_latin_extended_windows_map = 256" by (rule table_length)
next
  assume "0x0100 \<le> cp \<and> cp \<le> 0x01FF"
  then show "accepted False cp" by (simp add: table_accepted)
next
  assume "0x0100 \<le> cp \<and> cp \<le> 0x01FF" "cp \<notin> {0x0160, 0x0161, 0x0192}"
  then show "unat (emitted False cp) = unicode_latin_extended_windows_map ! (cp - 0x100)"
    using table_emitted [of cp] by blast
next
  assume r: "0x0100 \<le> cp \<and> cp \<le> 0x01FF"
  assume h: "decodable ss ss_size \<and> list_all (accepted False) (code_points ss ss_size) \<and>
       length (code_points ss ss_size) \<le> length buf \<and>
       k < length (code_points ss ss_size) \<and> code_points ss ss_size ! k = cp \<and>
       cp \<notin> {0x0160, 0x0161, 0x0192}"
  from h r have em: "unat (emitted False cp) = unicode_latin_extended_windows_map ! (cp - 0x100)"
    using table_emitted [of cp] by blast
  from h real_run_nth [of ss ss_size False buf k] obtain out where
    "utf8_password_to_pdfdoc (Some buf) ss ss_size False
        = Inr (Some out, int (length (code_points ss ss_size)))"
    "out ! k = emitted False cp"
    by blast
  with em show "\<exists>out. utf8_password_to_pdfdoc (Some buf) ss ss_size False
                 = Inr (Some out, int (length (code_points ss ss_size))) \<and>
              unat (out ! k) = unicode_latin_extended_windows_map ! (cp - 0x100)"
    by auto
next
  show "emitted False 0x0160 = 0x97" by (simp add: codec_eval)
  show "emitted False 0x0161 = 0x9D" by (simp add: codec_eval)
  show "emitted False 0x0192 = 0x86" by (simp add: codec_eval)
  show "emitted False 0x0100 = 0x41"
    by (simp add: codec_eval unicode_latin_extended_windows_map_def)
next
  assume "0x0100 \<in> set (code_points ss ss_size)"
  moreover have "\<not> accepted True 0x0100" by (simp add: codec_eval)
  ultimately have "\<not> list_all (accepted True) (code_points ss ss_size)"
    by (auto simp: list_all_iff)
  then show "utf8_password_to_pdfdoc None ss ss_size True = Inr (None, - 1)"
    by (simp add: dry_run)
qed

theorem C6_table_remap_witness:
  "0x0100 \<le> (0x0100::nat) \<and> (0x0100::nat) \<le> 0x01FF \<and> accepted False 0x0100 \<and>
   (0x0100::nat) \<notin> {0x0160, 0x0161, 0x0192} \<and>
   unat (emitted False 0x0100) = unicode_latin_extended_windows_map ! (0x0100 - 0x100) \<and>
   unicode_latin_extended_windows_map ! (0x0100 - 0x100) = 0x41 \<and>
   decodable [0x41, 0xC4, 0x80] 3 \<and> code_points [0x41, 0xC4, 0x80] 3 = [0x41, 0x0100] \<and>
   list_all (accepted False) [0x41, 0x0100] \<and>
   utf8_password_to_pdfdoc (Some [0, 0]) [0x41, 0xC4, 0x80] 3 False = Inr (Some [0x41, 0x41], 2) \<and>
   utf8_password_to_pdfdoc None [0x41, 0xC4, 0x80] 3 True = Inr (None, - 1)"
proof -
  have r: "0x0100 \<le> (0x0100::nat) \<and> (0x0100::nat) \<le> 0x01FF" by simp
  have n: "(0x0100::nat) \<notin> {0x0160, 0x0161, 0x0192}" by simp
  have t: "unicode_latin_extended_windows_map ! (0x0100 - 0x100) = 0x41"
    by (simp add: unicode_latin_extended_windows_map_def)
  have d: "decodable [0x41, 0xC4, 0x80] 3" by (simp add: codec_eval)
  have c: "code_points [0x41, 0xC4, 0x80] 3 = [0x41, 0x0100]" by (simp add: codec_eval)
  have m: "0x0100 \<in> set (code_points [0x41, 0xC4, 0x80] 3)" by (simp add: c)
  have run: "utf8_password_to_pdfdoc (Some [0, 0]) [0x41, 0xC4, 0x80] 3 False
               = Inr (Some [0x41, 0x41], 2)"
    by (simp add: codec_eval unicode_latin_extended_windows_map_def)
  note w = C6_table_remap [of "0x0100" "[0x41, 0xC4, 0x80]" 3 "[0, 0]" 1]
  from w r have a: "accepted False 0x0100" by blast
  from w r n have e: "unat (emitted False 0x0100)
                        = unicode_latin_extended_windows_map ! (0x0100 - 0x100)" by blast
  from w m have s: "utf8_password_to_pdfdoc None [0x41, 0xC4, 0x80] 3 True = Inr (None, - 1)"
    by blast
  have l: "list_all (accepted False) [0x41, 0x0100]" using a by (simp add: codec_eval)
  from r n t d c run a e s l show ?thesis by simp
qed


subsection \<open>C7: the dry run and the run with a buffer\<close>

text \<open>
  C7: the dry run always returns; a run with a buffer that returns, returns the integer
  of the dry run, and it does return when the buffer has at least \<open>ss_size\<close> bytes; when
  the dry run returns \<open>n \<ge> 0\<close> and the buffer has at least \<open>n\<close> bytes, the run with the
  buffer returns \<open>n\<close>, the first \<open>n\<close> bytes of the buffer are the bytes of the \<open>n\<close> code
  points, and every byte from index \<open>n\<close> on is left as it was. A write beyond the buffer
  would be the error \<open>Buffer_Overrun\<close>.
\<close>

theorem C7_dry_run_sizes_buffer:
  "(\<exists>k. utf8_password_to_pdfdoc None ss ss_size encrypt_b = Inr (None, k)) \<and>
   (utf8_password_to_pdfdoc (Some buf) ss ss_size encrypt_b = Inr (bb', r) \<longrightarrow>
      utf8_password_to_pdfdoc None ss ss_size encrypt_b = Inr (None, r)) \<and>
   (ss_size \<le> int (length buf) \<longrightarrow>
      (\<exists>out r. utf8_password_to_pdfdoc (Some buf) ss ss_size encrypt_b = Inr (Some out, r))) \<and>
   (utf8_password_to_pdfdoc None ss ss_size encrypt_b = Inr (None, n) \<and> 0 \<le> n \<and>
    nat n \<le> length buf \<longrightarrow>
      length (code_points ss ss_size) = nat n \<and>
      utf8_password_to_pdfdoc (Some buf) ss ss_size encrypt_b =
        Inr (Some (map (emitted encrypt_b) (code_points ss ss_size) @ drop (nat n) buf), n))"
proof (intro conjI impI)
  show "\<exists>k. utf8_password_to_pdfdoc None ss ss_size encrypt_b = Inr (None, k)"
    by (simp add: dry_run)
next
  assume "utf8_password_to_pdfdoc (Some buf) ss ss_size encrypt_b = Inr (bb', r)"
  then show "utf8_password_to_pdfdoc None ss ss_size encrypt_b = Inr (None, r)"
    unfolding utf8_password_to_pdfdoc_def by (rule loop_same_integer)
next
  assume "ss_size \<le> int (length buf)"
  then have "length (takeWhile (accepted encrypt_b) (code_points ss ss_size)) \<le> length buf"
    by (rule code_points_fit)
  from real_run [OF this]
  show "\<exists>out r. utf8_password_to_pdfdoc (Some buf) ss ss_size encrypt_b = Inr (Some out, r)"
    by blast
next
  assume h: "utf8_password_to_pdfdoc None ss ss_size encrypt_b = Inr (None, n) \<and> 0 \<le> n \<and>
    nat n \<le> length buf"
  let ?cps = "code_points ss ss_size"
  from h have ok: "decodable ss ss_size" "list_all (accepted encrypt_b) ?cps"
    and len: "n = int (length ?cps)"
    by (auto simp: dry_run split: if_splits)
  from len show "length ?cps = nat n" by simp
  from ok(2) have tw: "takeWhile (accepted encrypt_b) ?cps = ?cps" by (simp add: list_all_iff)
  from h len have "length (takeWhile (accepted encrypt_b) ?cps) \<le> length buf"
    by (simp add: tw)
  from real_run [OF this] ok len
  show "utf8_password_to_pdfdoc (Some buf) ss ss_size encrypt_b =
        Inr (Some (map (emitted encrypt_b) ?cps @ drop (nat n) buf), n)"
    by (simp add: tw)
qed

theorem C7_dry_run_sizes_buffer_witness:
  "utf8_password_to_pdfdoc None [0x63, 0x61, 0x66, 0xC3, 0xA9] 5 True = Inr (None, 4) \<and>
   (0::int) \<le> 4 \<and> nat 4 \<le> length [0x11, 0x22, 0x33, 0x44 :: byte] \<and>
   utf8_password_to_pdfdoc (Some [0x11, 0x22, 0x33, 0x44]) [0x63, 0x61, 0x66, 0xC3, 0xA9] 5 True
     = Inr (Some [0x63, 0x61, 0x66, 0xE9], 4) \<and>
   utf8_password_to_pdfdoc (Some [0x11, 0x22, 0x33]) [0x63, 0x61, 0x66, 0xC3, 0xA9] 5 True
     = Inl Buffer_Overrun \<and>
   (5::int) \<le> int (length [0x11, 0x22, 0x33, 0x44, 0x55 :: byte]) \<and>
   utf8_password_to_pdfdoc (Some [0x11, 0x22, 0x33, 0x44, 0x55]) [0x63, 0x61, 0x66, 0xC3, 0xA9] 5 True
     = Inr (Some [0x63, 0x61, 0x66, 0xE9, 0x55], 4)"
proof -
  have dry: "utf8_password_to_pdfdoc None [0x63, 0x61, 0x66, 0xC3, 0xA9] 5 True = Inr (None, 4)"
    by (simp add: codec_eval)
  have cps: "code_points [0x63, 0x61, 0x66, 0xC3, 0xA9] 5 = [0x63, 0x61, 0x66, 0xE9]"
    by (simp add: codec_eval)
  have em: "emitted True 0x63 = 0x63" "emitted True 0x61 = 0x61" "emitted True 0x66 = 0x66"
    "emitted True 0xE9 = 0xE9"
    by (simp_all add: codec_eval)
  have over: "utf8_password_to_pdfdoc (Some [0x11, 0x22, 0x33]) [0x63, 0x61, 0x66, 0xC3, 0xA9] 5 True
     = Inl Buffer_Overrun"
    by (simp add: codec_eval)
  from C7_dry_run_sizes_buffer
         [of "[0x63, 0x61, 0x66, 0xC3, 0xA9]" 5 True "[0x11, 0x22, 0x33, 0x44]" None 4 4] dry
  have r4: "utf8_password_to_pdfdoc (Some [0x11, 0x22, 0x33, 0x44]) [0x63, 0x61, 0x66, 0xC3, 0xA9] 5 True
     = Inr (Some [0x63, 0x61, 0x66, 0xE9], 4)"
    by (simp add: cps em)
  from C7_dry_run_sizes_buffer
         [of "[0x63, 0x61, 0x66, 0xC3, 0xA9]" 5 True "[0x11, 0x22, 0x33, 0x44, 0x55]" None 4 4] dry
  have r5: "utf8_password_to_pdfdoc (Some [0x11, 0x22, 0x33, 0x44, 0x55]) [0x63, 0x61, 0x66, 0xC3, 0xA9] 5 True
     = Inr (Some [0x63, 0x61, 0x66, 0xE9, 0x55], 4)"
    by (simp add: cps em)
  from dry over r4 r5 show ?thesis by simp
qed

subsection \<open>C8: the em dash\<close>

text \<open>
  C8: U+2014 is refused with \<open>encrypt_b\<close> set and accepted as the byte \<open>0x84\<close> (octal 0204)
  with \<open>encrypt_b\<close> clear. An input whose decoded code points contain it returns \<open>-1\<close> with
  \<open>encrypt_b\<close> set; with \<open>encrypt_b\<close> clear, when the input decodes and all its code points
  are accepted, the call returns their number and the byte at each position of U+2014
  is \<open>0x84\<close>.
\<close>

theorem C8_em_dash:
  "\<not> accepted True 0x2014 \<and> accepted False 0x2014 \<and> emitted False 0x2014 = 0x84 \<and>
   (0x2014 \<in> set (code_points ss ss_size) \<longrightarrow>
      utf8_password_to_pdfdoc None ss ss_size True = Inr (None, - 1)) \<and>
   (0x2014 \<in> set (code_points ss ss_size) \<and>
    utf8_password_to_pdfdoc bb ss ss_size True = Inr (bb', r) \<longrightarrow> r = - 1) \<and>
   (decodable ss ss_size \<and> list_all (accepted False) (code_points ss ss_size) \<and>
    length (code_points ss ss_size) \<le> length buf \<and>
    k < length (code_points ss ss_size) \<and> code_points ss ss_size ! k = 0x2014 \<longrightarrow>
      (\<exists>out. utf8_password_to_pdfdoc (Some buf) ss ss_size False
                = Inr (Some out, int (length (code_points ss ss_size))) \<and>
             utf8_password_to_pdfdoc None ss ss_size False
                = Inr (None, int (length (code_points ss ss_size))) \<and>
             out ! k = 0x84))"
proof -
  have nt: "\<not> accepted True 0x2014" by (simp add: codec_eval)
  have af: "accepted False 0x2014" by (simp add: codec_eval)
  have em: "emitted False 0x2014 = 0x84" by (simp add: codec_eval)
  have strict: "\<not> list_all (accepted True) (code_points ss ss_size)"
    if "0x2014 \<in> set (code_points ss ss_size)"
    using that nt by (auto simp: list_all_iff)
  have s1: "utf8_password_to_pdfdoc None ss ss_size True = Inr (None, - 1)"
    if "0x2014 \<in> set (code_points ss ss_size)"
    using strict [OF that] by (simp add: dry_run)
  have s2: "r = - 1"
    if "0x2014 \<in> set (code_points ss ss_size) \<and>
        utf8_password_to_pdfdoc bb ss ss_size True = Inr (bb', r)"
    using that strict any_run [of bb ss ss_size True bb' r] by simp
  have p: "\<exists>out. utf8_password_to_pdfdoc (Some buf) ss ss_size False
                = Inr (Some out, int (length (code_points ss ss_size))) \<and>
             utf8_password_to_pdfdoc None ss ss_size False
                = Inr (None, int (length (code_points ss ss_size))) \<and>
             out ! k = 0x84"
    if h: "decodable ss ss_size \<and> list_all (accepted False) (code_points ss ss_size) \<and>
        length (code_points ss ss_size) \<le> length buf \<and>
        k < length (code_points ss ss_size) \<and> code_points ss ss_size ! k = 0x2014"
  proof -
    from h real_run_nth [of ss ss_size False buf k] obtain out where
      "utf8_password_to_pdfdoc (Some buf) ss ss_size False
          = Inr (Some out, int (length (code_points ss ss_size)))"
      "out ! k = emitted False 0x2014"
      by auto
    moreover from h have "utf8_password_to_pdfdoc None ss ss_size False
                = Inr (None, int (length (code_points ss ss_size)))"
      by (simp add: dry_run)
    ultimately show ?thesis using em by auto
  qed
  from nt af em s1 s2 p show ?thesis by blast
qed

theorem C8_em_dash_witness:
  "code_points [0x61, 0xE2, 0x80, 0x94] 4 = [0x61, 0x2014] \<and>
   decodable [0x61, 0xE2, 0x80, 0x94] 4 \<and>
   list_all (accepted False) [0x61, 0x2014] \<and>
   utf8_password_to_pdfdoc None [0x61, 0xE2, 0x80, 0x94] 4 True = Inr (None, - 1) \<and>
   utf8_password_to_pdfdoc None [0x61, 0xE2, 0x80, 0x94] 4 False = Inr (None, 2) \<and>
   utf8_password_to_pdfdoc (Some [0, 0]) [0x61, 0xE2, 0x80, 0x94] 4 False
     = Inr (Some [0x61, 0x84], 2)"
proof -
  have c: "code_points [0x61, 0xE2, 0x80, 0x94] 4 = [0x61, 0x2014]" by (simp add: codec_eval)
  have d: "decodable [0x61, 0xE2, 0x80, 0x94] 4" by (simp add: codec_eval)
  have l: "list_all (accepted False) [0x61, 0x2014]" by (simp add: codec_eval)
  have run: "utf8_password_to_pdfdoc (Some [0, 0]) [0x61, 0xE2, 0x80, 0x94] 4 False
     = Inr (Some [0x61, 0x84], 2)" by (simp add: codec_eval)
  note w = C8_em_dash [of "[0x61, 0xE2, 0x80, 0x94]" 4 None None "- 1" "[0, 0]" 1]
  from w c have s: "utf8_password_to_pdfdoc None [0x61, 0xE2, 0x80, 0x94] 4 True = Inr (None, - 1)"
    by simp
  from w c d l have p: "utf8_password_to_pdfdoc None [0x61, 0xE2, 0x80, 0x94] 4 False = Inr (None, 2)"
    by auto
  from c d l run s p show ?thesis by simp
qed

subsection \<open>C9: a zero byte ends the input\<close>

text \<open>
  Claim C9 says that a zero byte inside the input is classified like any other code
  point and that the bytes after it are processed. The loop condition of line 341 tests
  \<open>ss[ii]\<close>: on \<open>41 00 FF\<close> the call returns \<open>1\<close>, although \<open>41 FF\<close> returns \<open>-1\<close> and
  \<open>classify\<close> refuses the code point \<open>0\<close> in both modes.
\<close>

theorem C9_nul_stops_counterexample:
  "utf8_password_to_pdfdoc None [0x41, 0x00, 0xFF] 3 True = Inr (None, 1) \<and>
   utf8_password_to_pdfdoc None [0x41, 0x00, 0xFF] 3 False = Inr (None, 1) \<and>
   utf8_password_to_pdfdoc None [0x41, 0xFF] 2 False = Inr (None, - 1) \<and>
   utf8_password_to_pdfdoc None [0x41, 0x00] 2 False = Inr (None, 1) \<and>
   classify False 0x00 1 = (0x00, - 1) \<and>
   classify True 0x00 1 = (0x00, - 1)"
  by (simp add: codec_eval)

text \<open>
  C9, as the code has it: the input is processed up to \<open>ss_size\<close> or up to its first zero
  byte, whichever comes first. The call on an input with a zero byte is the call on the
  bytes before the first zero byte: same count, same buffer, same decoded code points.
\<close>

theorem C9_stops_at_nul:
  assumes "0 \<notin> set pre"
  shows "utf8_password_to_pdfdoc bb (pre @ 0 # post) (int (length (pre @ 0 # post))) encrypt_b
           = utf8_password_to_pdfdoc bb pre (int (length pre)) encrypt_b \<and>
         code_points (pre @ 0 # post) (int (length (pre @ 0 # post)))
           = code_points pre (int (length pre)) \<and>
         decodable (pre @ 0 # post) (int (length (pre @ 0 # post)))
           = decodable pre (int (length pre))"
proof -
  have "password_loop bb (pre @ 0 # post) (int (length (pre @ 0 # post))) encrypt_b 0 0
          = password_loop bb pre (int (length pre)) encrypt_b 0 0"
    using assms by (intro loop_nul_prefix) simp_all
  moreover
  have "decoded_points (pre @ 0 # post) (int (length (pre @ 0 # post))) 0
          = decoded_points pre (int (length pre)) 0"
    using assms by (intro decoded_points_nul_prefix) simp_all
  ultimately show ?thesis
    by (simp add: utf8_password_to_pdfdoc_def code_points_def decodable_def)
qed

theorem C9_stops_at_nul_witness:
  "(0::byte) \<notin> set [0x41, 0x42] \<and>
   utf8_password_to_pdfdoc (Some [0, 0, 0, 0]) ([0x41, 0x42] @ 0 # [0xFF, 0x09]) 5 False
     = utf8_password_to_pdfdoc (Some [0, 0, 0, 0]) [0x41, 0x42] 2 False \<and>
   utf8_password_to_pdfdoc (Some [0, 0, 0, 0]) [0x41, 0x42] 2 False
     = Inr (Some [0x41, 0x42, 0, 0], 2) \<and>
   code_points ([0x41, 0x42] @ 0 # [0xFF, 0x09]) 5 = [0x41, 0x42]"
proof -
  have h: "(0::byte) \<notin> set [0x41, 0x42]" by simp
  have r: "utf8_password_to_pdfdoc (Some [0, 0, 0, 0]) [0x41, 0x42] 2 False
     = Inr (Some [0x41, 0x42, 0, 0], 2)" by (simp add: codec_eval)
  have c: "code_points [0x41, 0x42] 2 = [0x41, 0x42]" by (simp add: codec_eval)
  from C9_stops_at_nul [OF h, of "Some [0, 0, 0, 0]" "[0xFF, 0x09]" False] h r c
  show ?thesis by simp
qed

subsection \<open>C10: control characters\<close>

text \<open>
  C10: a code point in \<open>0x01 .. 0x1F\<close> or \<open>0x7F .. 0x9F\<close> is refused by \<open>classify\<close> in both
  modes, and a call whose decoded code points contain one returns \<open>-1\<close>.
\<close>

theorem C10_controls_refused:
  assumes "1 \<le> cp \<and> cp \<le> 0x1F \<or> 0x7F \<le> cp \<and> cp \<le> 0x9F"
  shows "\<not> accepted encrypt_b cp \<and> classify encrypt_b cp ret_val = (cp, - 1) \<and>
         (cp \<in> set (code_points ss ss_size) \<longrightarrow>
            utf8_password_to_pdfdoc None ss ss_size encrypt_b = Inr (None, - 1)) \<and>
         (cp \<in> set (code_points ss ss_size) \<and>
          utf8_password_to_pdfdoc bb ss ss_size encrypt_b = Inr (bb', r) \<longrightarrow> r = - 1)"
proof -
  have na: "\<not> accepted encrypt_b cp" using assms by (rule control_refused)
  have cl: "classify encrypt_b cp ret_val = (cp, - 1)"
  proof -
    from assms pdfdoc_switch_keys_ge have "cp \<notin> fst ` set pdfdoc_switch" by fastforce
    then have m1: "map_of pdfdoc_switch cp = None" by (simp add: map_of_None_keys)
    from assms decrypt_switch_keys_ge have "cp \<notin> fst ` set decrypt_switch" by fastforce
    then have m2: "map_of decrypt_switch cp = None" by (simp add: map_of_None_keys)
    from assms m1 m2 show ?thesis by (auto simp: classify_def)
  qed
  have no: "\<not> list_all (accepted encrypt_b) (code_points ss ss_size)"
    if "cp \<in> set (code_points ss ss_size)"
    using that na by (auto simp: list_all_iff)
  have d: "utf8_password_to_pdfdoc None ss ss_size encrypt_b = Inr (None, - 1)"
    if "cp \<in> set (code_points ss ss_size)"
    using no [OF that] by (simp add: dry_run)
  have a: "r = - 1"
    if "cp \<in> set (code_points ss ss_size) \<and>
        utf8_password_to_pdfdoc bb ss ss_size encrypt_b = Inr (bb', r)"
    using that no any_run [of bb ss ss_size encrypt_b bb' r] by simp
  from na cl d a show ?thesis by blast
qed

theorem C10_controls_refused_witness:
  "(1 \<le> (0x09::nat) \<and> (0x09::nat) \<le> 0x1F) \<and> (0x7F \<le> (0x80::nat) \<and> (0x80::nat) \<le> 0x9F) \<and>
   code_points [0x41, 0x09] 2 = [0x41, 0x09] \<and>
   utf8_password_to_pdfdoc None [0x41, 0x09] 2 True = Inr (None, - 1) \<and>
   utf8_password_to_pdfdoc None [0x41, 0x09] 2 False = Inr (None, - 1) \<and>
   code_points [0xC2, 0x80] 2 = [0x80] \<and>
   utf8_password_to_pdfdoc None [0xC2, 0x80] 2 True = Inr (None, - 1) \<and>
   utf8_password_to_pdfdoc None [0xC2, 0x80] 2 False = Inr (None, - 1) \<and>
   utf8_password_to_pdfdoc None [0x7F] 1 False = Inr (None, - 1) \<and>
   utf8_password_to_pdfdoc None [0x0A] 1 False = Inr (None, - 1)"
proof -
  have h1: "1 \<le> (0x09::nat) \<and> (0x09::nat) \<le> 0x1F \<or> 0x7F \<le> (0x09::nat) \<and> (0x09::nat) \<le> 0x9F"
    by simp
  have h2: "1 \<le> (0x80::nat) \<and> (0x80::nat) \<le> 0x1F \<or> 0x7F \<le> (0x80::nat) \<and> (0x80::nat) \<le> 0x9F"
    by simp
  have h3: "1 \<le> (0x7F::nat) \<and> (0x7F::nat) \<le> 0x1F \<or> 0x7F \<le> (0x7F::nat) \<and> (0x7F::nat) \<le> 0x9F"
    by simp
  have h4: "1 \<le> (0x0A::nat) \<and> (0x0A::nat) \<le> 0x1F \<or> 0x7F \<le> (0x0A::nat) \<and> (0x0A::nat) \<le> 0x9F"
    by simp
  have c1: "code_points [0x41, 0x09] 2 = [0x41, 0x09]" by (simp add: codec_eval)
  have c2: "code_points [0xC2, 0x80] 2 = [0x80]" by (simp add: codec_eval)
  have c3: "code_points [0x7F] 1 = [0x7F]" by (simp add: codec_eval)
  have c4: "code_points [0x0A] 1 = [0x0A]" by (simp add: codec_eval)
  from C10_controls_refused [OF h1, of True 0 "[0x41, 0x09]" 2 None None "- 1"] c1
  have t1: "utf8_password_to_pdfdoc None [0x41, 0x09] 2 True = Inr (None, - 1)" by simp
  from C10_controls_refused [OF h1, of False 0 "[0x41, 0x09]" 2 None None "- 1"] c1
  have t2: "utf8_password_to_pdfdoc None [0x41, 0x09] 2 False = Inr (None, - 1)" by simp
  from C10_controls_refused [OF h2, of True 0 "[0xC2, 0x80]" 2 None None "- 1"] c2
  have t3: "utf8_password_to_pdfdoc None [0xC2, 0x80] 2 True = Inr (None, - 1)" by simp
  from C10_controls_refused [OF h2, of False 0 "[0xC2, 0x80]" 2 None None "- 1"] c2
  have t4: "utf8_password_to_pdfdoc None [0xC2, 0x80] 2 False = Inr (None, - 1)" by simp
  from C10_controls_refused [OF h3, of False 0 "[0x7F]" 1 None None "- 1"] c3
  have t5: "utf8_password_to_pdfdoc None [0x7F] 1 False = Inr (None, - 1)" by simp
  from C10_controls_refused [OF h4, of False 0 "[0x0A]" 1 None None "- 1"] c4
  have t6: "utf8_password_to_pdfdoc None [0x0A] 1 False = Inr (None, - 1)" by simp
  from c1 c2 t1 t2 t3 t4 t5 t6 show ?thesis by simp
qed


end
